theory Spec2Isabelle
  imports Main
begin

section \<open>The range coverage tracker (module \<open>ranges\<close>)\<close>

text \<open>
  \<open>pcachefs.py\<close> imports \<open>Ranges\<close> and \<open>Range\<close> from a module \<open>ranges\<close> whose source
  is not part of the files under verification. \<open>Cacher.read\<close> uses of it exactly:
  the constructor \<open>Range(start, end)\<close>, the attributes \<open>block.start\<close> and \<open>block.size\<close>,
  the constructor \<open>Ranges()\<close>, and the methods \<open>get_uncovered_portions\<close> and \<open>add_range\<close>.
  The definitions of this section follow the specification's description of the
  Range Coverage Tracker (sections 3 and 4.1).
\<close>

text \<open>
  Modelled from the spec: the class \<open>Range\<close> of the missing module \<open>ranges\<close>. An Interval is
  a half-open range \<open>[start, end)\<close> of byte offsets. The field \<open>end\<close> is called \<open>stop\<close> here,
  and the attribute \<open>size\<close> is \<open>range_size\<close>.
\<close>

datatype Range = Range (start: int) (stop: int)

definition range_size :: "Range \<Rightarrow> int" where
  "range_size r = stop r - start r"

text \<open>The byte offsets of an interval.\<close>

definition range_set :: "Range \<Rightarrow> int set" where
  "range_set r = {start r ..< stop r}"

text \<open>
  Modelled from the spec: the class \<open>Ranges\<close> of the missing module \<open>ranges\<close>. Coverage is a
  set of pairwise non-overlapping, non-adjacent Intervals ordered by \<open>start\<close>; it is kept
  as the list of its intervals in that order. \<open>Ranges()\<close> is the empty Coverage.
\<close>

type_synonym Ranges = "Range list"

definition Ranges_new :: Ranges where
  "Ranges_new = []"

text \<open>
  Modelled from the spec: \<open>Ranges.add_range\<close> of the missing module \<open>ranges\<close>.
  \<open>add_range(interval)\<close> inserts the interval into Coverage, merging with any overlapping
  or adjacent existing intervals; adding an already-covered interval is a no-op. An
  interval without bytes (\<open>end \<le> start\<close>) is already covered, so it changes nothing.
  \<open>merge_range\<close> walks the ordered list: an interval that ends before the next one
  starts, without touching it, is put in front; one that starts after the current one
  ends, without touching it, moves on; otherwise the two are merged and the walk goes on
  with the merged interval.
\<close>

fun merge_range :: "Range \<Rightarrow> Ranges \<Rightarrow> Ranges" where
  "merge_range r [] = [r]"
| "merge_range r (c # cs) =
     (if stop r < start c then r # c # cs
      else if stop c < start r then c # merge_range r cs
      else merge_range (Range (min (start r) (start c)) (max (stop r) (stop c))) cs)"

definition add_range :: "Ranges \<Rightarrow> Range \<Rightarrow> Ranges" where
  "add_range cs r = (if start r < stop r then merge_range r cs else cs)"

text \<open>
  Modelled from the spec: \<open>Ranges.get_uncovered_portions\<close> of the missing module \<open>ranges\<close>.
  \<open>uncovered_portions(query)\<close> returns the sub-intervals of the query that are not in
  Coverage, in ascending offset order, each maximal; the empty sequence if the query is
  fully covered or has length zero. \<open>uncovered lo hi cs\<close> walks the ordered list with the
  part \<open>[lo, hi)\<close> of the query that is still to be examined.
\<close>

fun uncovered :: "int \<Rightarrow> int \<Rightarrow> Ranges \<Rightarrow> Range list" where
  "uncovered lo hi [] = (if lo < hi then [Range lo hi] else [])"
| "uncovered lo hi (c # cs) =
     (if hi \<le> lo then []
      else if stop c \<le> lo then uncovered lo hi cs
      else if hi \<le> start c then [Range lo hi]
      else if lo < start c then Range lo (start c) # uncovered (stop c) hi cs
      else uncovered (stop c) hi cs)"

definition get_uncovered_portions :: "Ranges \<Rightarrow> Range \<Rightarrow> Range list" where
  "get_uncovered_portions cs q = uncovered (start q) (stop q) cs"

text \<open>The bytes covered by a list of intervals.\<close>

definition covered :: "Range list \<Rightarrow> int set" where
  "covered cs = (\<Union>r \<in> set cs. range_set r)"

text \<open>
  The central invariant of Coverage: every interval has at least one byte, the
  intervals are in ascending order, and between two neighbours there is at least one
  byte that belongs to neither (they neither overlap nor touch).
\<close>

fun coverage_ok :: "Range list \<Rightarrow> bool" where
  "coverage_ok [] = True"
| "coverage_ok [c] = (start c < stop c)"
| "coverage_ok (c # d # cs) = (start c < stop c \<and> stop c < start d \<and> coverage_ok (d # cs))"

section \<open>The operating system as the program uses it\<close>

text \<open>
  \<open>pcachefs.py\<close> is Python 2: a \<open>str\<close> is a sequence of bytes, and integers are unbounded.
  Exceptions are values: every operation that can raise returns a sum, \<open>Inl\<close> the
  exception. \<open>OSError\<close> and \<open>IOError\<close> carry their \<open>errno\<close>. \<open>WrongFileKind\<close> stands for the
  exception raised when a file of the cache directory that holds a pickled object is
  used as raw data or the other way round, or holds an object of another class than the
  caller goes on to use; the four file names of the cache are distinct, so the program
  never does that to files it wrote itself.
\<close>

type_synonym bytes = string

datatype error = ValueError | IndexError | OSError int | IOError int | WrongFileKind

abbreviation (input) ENOENT :: int where "ENOENT \<equiv> 2"
abbreviation (input) EACCES :: int where "EACCES \<equiv> 13"
abbreviation (input) ENOTDIR :: int where "ENOTDIR \<equiv> 20"
abbreviation (input) EISDIR :: int where "EISDIR \<equiv> 21"
abbreviation (input) EINVAL :: int where "EINVAL \<equiv> 22"

abbreviation (input) O_RDONLY :: int where "O_RDONLY \<equiv> 0"
abbreviation (input) O_WRONLY :: int where "O_WRONLY \<equiv> 1"
abbreviation (input) O_RDWR :: int where "O_RDWR \<equiv> 2"

text \<open>
  \<open>os.path.join(a, b)\<close> of \<open>posixpath\<close>: an absolute \<open>b\<close> replaces \<open>a\<close>; otherwise \<open>b\<close> is
  appended, after a separator unless \<open>a\<close> is empty or already ends with one. The
  three-argument call of the source is two such steps.
\<close>

definition path_join :: "string \<Rightarrow> string \<Rightarrow> string" where
  "path_join a b =
     (if b \<noteq> [] \<and> hd b = CHR ''/'' then b
      else if a = [] \<or> last a = CHR ''/'' then a @ b
      else a @ ''/'' @ b)"

text \<open>The fields of an \<open>os.stat\<close> result that \<open>FuseStat.__init__\<close> copies.\<close>

record stat =
  st_mode :: int
  st_nlink :: int
  st_size :: int
  st_atime :: int
  st_mtime :: int
  st_ctime :: int
  st_dev :: int
  st_gid :: int
  st_ino :: int
  st_uid :: int

definition FuseStat :: "stat \<Rightarrow> stat" where
  "FuseStat s =
     \<lparr>st_mode = st_mode s, st_nlink = st_nlink s, st_size = st_size s,
      st_atime = st_atime s, st_mtime = st_mtime s, st_ctime = st_ctime s,
      st_dev = st_dev s, st_gid = st_gid s, st_ino = st_ino s, st_uid = st_uid s\<rparr>"

text \<open>
  The directory tree that is being cached (the target directory) is outside the
  program. For every path name it says what the system finds there: a file, a
  directory, or the \<open>errno\<close> with which the name is refused (\<open>ENOENT\<close> when there is no
  such file or directory, \<open>ENOTDIR\<close> when a component of the name is not a directory,
  \<open>EACCES\<close>, \<open>ENAMETOOLONG\<close> and so on). A file has its attributes and its content, and
  \<open>os.stat\<close> reports the length of the content as \<open>st_size\<close>; a directory has its
  attributes and the names \<open>os.listdir\<close> returns. \<open>os.stat\<close> and \<open>os.listdir\<close> raise
  \<open>OSError\<close> and \<open>open\<close> raises \<open>IOError\<close>, with the \<open>errno\<close> of the refusal;
  \<open>os.path.isdir\<close> answers \<open>False\<close> for a name that is refused.
\<close>

datatype node = File stat bytes | Dir stat "string list"

type_synonym ostree = "string \<Rightarrow> int + node"

definition os_stat :: "ostree \<Rightarrow> string \<Rightarrow> error + stat" where
  "os_stat t p =
     (case t p of
        Inl errno \<Rightarrow> Inl (OSError errno)
      | Inr (File m bs) \<Rightarrow> Inr (m\<lparr>st_size := int (length bs)\<rparr>)
      | Inr (Dir m names) \<Rightarrow> Inr m)"

definition os_isdir :: "ostree \<Rightarrow> string \<Rightarrow> bool" where
  "os_isdir t p = (case t p of Inr (Dir m names) \<Rightarrow> True | _ \<Rightarrow> False)"

definition os_listdir :: "ostree \<Rightarrow> string \<Rightarrow> error + string list" where
  "os_listdir t p =
     (case t p of
        Inl errno \<Rightarrow> Inl (OSError errno)
      | Inr (File m bs) \<Rightarrow> Inl (OSError ENOTDIR)
      | Inr (Dir m names) \<Rightarrow> Inr names)"

text \<open>\<open>open(p, 'rb')\<close> on the target tree, giving the content of the file.\<close>

definition os_open_rb :: "ostree \<Rightarrow> string \<Rightarrow> error + bytes" where
  "os_open_rb t p =
     (case t p of
        Inl errno \<Rightarrow> Inl (IOError errno)
      | Inr (Dir m names) \<Rightarrow> Inl (IOError EISDIR)
      | Inr (File m bs) \<Rightarrow> Inr bs)"

text \<open>
  \<open>f.seek(offset)\<close> followed by \<open>f.read(size)\<close> on a file with content \<open>bs\<close>: a negative
  offset is refused with \<open>EINVAL\<close>; a position past the end reads nothing; a negative size
  reads to the end of the file; otherwise at most \<open>size\<close> bytes are read. The
  argument \<open>size\<close> of the source is written \<open>sz\<close> throughout. Offsets and sizes are
  taken to be numbers that the file operations of the platform accept (they fit its
  \<open>off_t\<close> and \<open>ssize_t\<close>, and a buffer of the size can be allocated).
\<close>

definition seek_read :: "bytes \<Rightarrow> int \<Rightarrow> int \<Rightarrow> error + bytes" where
  "seek_read bs offset sz =
     (if offset < 0 then Inl (IOError EINVAL)
      else if sz < 0 then Inr (drop (nat offset) bs)
      else Inr (take (nat sz) (drop (nat offset) bs)))"

text \<open>
  \<open>f.seek(pos)\<close> followed by \<open>f.write(data)\<close>, for \<open>pos \<ge> 0\<close>: the bytes from \<open>pos\<close> on are
  overwritten, the file grows when the data reaches past its end, and a position past
  the end leaves a hole of zero bytes. Writing the empty string writes nothing, so it
  does not extend the file either.
\<close>

definition write_at :: "bytes \<Rightarrow> nat \<Rightarrow> bytes \<Rightarrow> bytes" where
  "write_at bs pos data =
     (if data = [] then bs
      else take pos bs @ replicate (pos - length bs) (CHR 0x00) @ data
           @ drop (pos + length data) bs)"

section \<open>The underlying file system (class \<open>UnderlyingFs\<close>)\<close>

record UnderlyingFs =
  real_path :: string

text \<open>\<open>UnderlyingFs._get_real_path\<close>; \<open>path[0]\<close> raises \<open>IndexError\<close> on the empty string.\<close>

definition get_real_path :: "UnderlyingFs \<Rightarrow> string \<Rightarrow> error + string" where
  "get_real_path ufs path =
     (case path of
        [] \<Rightarrow> Inl IndexError
      | c # rest \<Rightarrow>
          if c \<noteq> CHR ''/'' then Inl ValueError
          else Inr (path_join (real_path ufs) rest))"

text \<open>\<open>UnderlyingFs.getattr\<close>, on the tree \<open>t\<close> as it is at the time of the call.\<close>

definition UnderlyingFs_getattr :: "UnderlyingFs \<Rightarrow> ostree \<Rightarrow> string \<Rightarrow> error + stat" where
  "UnderlyingFs_getattr ufs t path =
     (case get_real_path ufs path of
        Inl e \<Rightarrow> Inl e
      | Inr rp \<Rightarrow>
          (case os_stat t rp of
             Inl e \<Rightarrow> Inl e
           | Inr s \<Rightarrow> Inr (FuseStat s)))"

text \<open>
  \<open>UnderlyingFs.readdir\<close>. The entries are collected before the generator is returned,
  so the exceptions of \<open>os.listdir\<close> are raised by the call itself. A \<open>fuse.Direntry\<close> is
  represented by its name. The argument \<open>offset\<close> is not used.
\<close>

definition UnderlyingFs_readdir ::
  "UnderlyingFs \<Rightarrow> ostree \<Rightarrow> string \<Rightarrow> int \<Rightarrow> error + string list" where
  "UnderlyingFs_readdir ufs t path offset =
     (case get_real_path ufs path of
        Inl e \<Rightarrow> Inl e
      | Inr rp \<Rightarrow>
          (let dirents = (if os_isdir t rp then [''.'', ''..''] else []) in
           case os_listdir t rp of
             Inl e \<Rightarrow> Inl e
           | Inr names \<Rightarrow> Inr (dirents @ names)))"

text \<open>\<open>UnderlyingFs.read\<close>.\<close>

definition UnderlyingFs_read ::
  "UnderlyingFs \<Rightarrow> ostree \<Rightarrow> string \<Rightarrow> int \<Rightarrow> int \<Rightarrow> error + bytes" where
  "UnderlyingFs_read ufs t path sz offset =
     (case get_real_path ufs path of
        Inl e \<Rightarrow> Inl e
      | Inr rp \<Rightarrow>
          (case os_open_rb t rp of
             Inl e \<Rightarrow> Inl e
           | Inr bs \<Rightarrow> seek_read bs offset sz))"

section \<open>The cache directory and the calls to the underlying file system\<close>

text \<open>
  A file of the cache directory holds raw data (\<open>cache.data\<close>) or one pickled object:
  the \<open>Ranges\<close> of \<open>cache.data.range\<close>, the stat object of \<open>cache.stat\<close>, the list of
  directory entries of \<open>cache.list\<close>. \<open>pickle.load\<close> gives back the object that
  \<open>pickle.dump\<close> wrote.
\<close>

datatype cfile =
    Data bytes
  | PickledRanges Ranges
  | PickledStat stat
  | PickledList "string list"

text \<open>A call of a method of the \<open>underlying_fs\<close> object, with its arguments.\<close>

datatype ucall =
    Ugetattr string
  | Ureaddir string int
  | Uread string int int

text \<open>
  The state the cacher works on: the files and the directories of the cache directory
  tree, by path name, and the calls made to the underlying file system so far, oldest
  first. The target directory can change while the program runs: \<open>world\<close> gives the
  target tree as it is at the time of each call to the underlying file system, the calls
  being counted from 0. The cache directory and the target directory are taken to be
  disjoint trees, and storage in the cache directory does not fail, except for the
  exceptions written out below.
\<close>

record state =
  files :: "string \<Rightarrow> cfile option"
  dirs :: "string set"
  calls :: "ucall list"

type_synonym world = "nat \<Rightarrow> ostree"

definition empty_state :: state where
  "empty_state = \<lparr>files = (\<lambda>p. None), dirs = {}, calls = []\<rparr>"

text \<open>\<open>os.path.exists\<close> on the cache directory tree.\<close>

definition path_exists :: "state \<Rightarrow> string \<Rightarrow> bool" where
  "path_exists st p = (case files st p of Some c \<Rightarrow> True | None \<Rightarrow> p \<in> dirs st)"

text \<open>\<open>open(p, 'rb')\<close> or \<open>open(p, 'r+b')\<close> on the cache directory tree.\<close>

definition open_existing :: "state \<Rightarrow> string \<Rightarrow> error + cfile" where
  "open_existing st p =
     (case files st p of
        Some c \<Rightarrow> Inr c
      | None \<Rightarrow> if p \<in> dirs st then Inl (IOError EISDIR) else Inl (IOError ENOENT))"

text \<open>\<open>with open(p, 'rb') as f: pickle.load(f)\<close>, for each class of object.\<close>

definition load_ranges :: "state \<Rightarrow> string \<Rightarrow> error + Ranges" where
  "load_ranges st p =
     (case open_existing st p of
        Inl e \<Rightarrow> Inl e
      | Inr (PickledRanges cs) \<Rightarrow> Inr cs
      | Inr _ \<Rightarrow> Inl WrongFileKind)"

definition load_stat :: "state \<Rightarrow> string \<Rightarrow> error + stat" where
  "load_stat st p =
     (case open_existing st p of
        Inl e \<Rightarrow> Inl e
      | Inr (PickledStat s) \<Rightarrow> Inr s
      | Inr _ \<Rightarrow> Inl WrongFileKind)"

definition load_list :: "state \<Rightarrow> string \<Rightarrow> error + string list" where
  "load_list st p =
     (case open_existing st p of
        Inl e \<Rightarrow> Inl e
      | Inr (PickledList names) \<Rightarrow> Inr names
      | Inr _ \<Rightarrow> Inl WrongFileKind)"

text \<open>
  \<open>open(p, 'wb')\<close> creates the file or truncates it; \<open>put_file\<close> is that followed by
  writing the whole content \<open>c\<close>, as \<open>pickle.dump\<close> does. The directory of the file is
  not looked at: in the source every such \<open>open\<close> comes after \<open>_create_cache_dir\<close> for the
  same path, or after the data file in the same directory was opened.
\<close>

definition put_file :: "string \<Rightarrow> cfile \<Rightarrow> state \<Rightarrow> (error + unit) \<times> state" where
  "put_file p c st =
     (if p \<in> dirs st then (Inl (IOError EISDIR), st)
      else (Inr (), st\<lparr>files := (files st)(p \<mapsto> c)\<rparr>))"

text \<open>
  The creation of the blank data file:
  \<^verbatim>\<open>with open(cache_data, 'wb') as f:
    f.seek(file_stat.st_size - 1)
    f.write('\0')\<close>
  The file is created empty by \<open>open\<close>; if the seek raises, it stays so.
\<close>

definition create_blank :: "string \<Rightarrow> int \<Rightarrow> state \<Rightarrow> (error + unit) \<times> state" where
  "create_blank p file_size st =
     (if p \<in> dirs st then (Inl (IOError EISDIR), st)
      else
        let st1 = st\<lparr>files := (files st)(p \<mapsto> Data [])\<rparr> in
        if file_size - 1 < 0 then (Inl (IOError EINVAL), st1)
        else (Inr (),
              st1\<lparr>files := (files st1)(p \<mapsto> Data (write_at [] (nat (file_size - 1)) [CHR 0x00]))\<rparr>))"

text \<open>
  \<open>cache_data_file.seek(pos)\<close> and \<open>cache_data_file.write(data)\<close> on the data file opened
  in update mode.
\<close>

definition seek_write :: "string \<Rightarrow> int \<Rightarrow> bytes \<Rightarrow> state \<Rightarrow> (error + unit) \<times> state" where
  "seek_write p pos data st =
     (case files st p of
        Some (Data bs) \<Rightarrow>
          if pos < 0 then (Inl (IOError EINVAL), st)
          else (Inr (), st\<lparr>files := (files st)(p \<mapsto> Data (write_at bs (nat pos) data))\<rparr>)
      | _ \<Rightarrow> (Inl WrongFileKind, st))"

text \<open>
  \<open>Cacher._mkdir\<close>: \<open>os.makedirs\<close> unless the path exists. The directories of the cache
  are kept as a set of names, to which the directory is added. The parent directories
  that \<open>os.makedirs\<close> creates on its way are not recorded, and its failure when a
  component of the name is a regular file is left out; that takes a path one of whose
  components has the name of a cache file.
\<close>

definition mkdir :: "string \<Rightarrow> state \<Rightarrow> state" where
  "mkdir p st = (if \<not> path_exists st p then st\<lparr>dirs := insert p (dirs st)\<rparr> else st)"

text \<open>Recording a call to the underlying file system; the tree it will see.\<close>

definition record_call :: "ucall \<Rightarrow> state \<Rightarrow> state" where
  "record_call c st = st\<lparr>calls := calls st @ [c]\<rparr>"

definition tree_now :: "world \<Rightarrow> state \<Rightarrow> ostree" where
  "tree_now W st = W (length (calls st))"

section \<open>The cacher (class \<open>Cacher\<close>)\<close>

record Cacher =
  cachedir :: string
  underlying_fs :: UnderlyingFs

text \<open>\<open>Cacher.__init__\<close>.\<close>

definition Cacher_init :: "string \<Rightarrow> UnderlyingFs \<Rightarrow> state \<Rightarrow> Cacher \<times> state" where
  "Cacher_init cdir ufs st =
     (\<lparr>cachedir = cdir, underlying_fs = ufs\<rparr>,
      if \<not> path_exists st cdir then mkdir cdir st else st)"

text \<open>\<open>Cacher._get_cache_dir\<close>; the optional argument \<open>file\<close> is an option.\<close>

definition get_cache_dir :: "Cacher \<Rightarrow> string \<Rightarrow> string option \<Rightarrow> error + string" where
  "get_cache_dir C path file =
     (case path of
        [] \<Rightarrow> Inl IndexError
      | c # rest \<Rightarrow>
          if c \<noteq> CHR ''/'' then Inl ValueError
          else (case file of
                  None \<Rightarrow> Inr (path_join (cachedir C) rest)
                | Some f \<Rightarrow> Inr (path_join (path_join (cachedir C) rest) f)))"

text \<open>\<open>Cacher._create_cache_dir\<close>.\<close>

definition create_cache_dir :: "Cacher \<Rightarrow> string \<Rightarrow> state \<Rightarrow> (error + unit) \<times> state" where
  "create_cache_dir C path st =
     (case get_cache_dir C path None of
        Inl e \<Rightarrow> (Inl e, st)
      | Inr cache_dir \<Rightarrow> (Inr (), mkdir cache_dir st))"

text \<open>\<open>Cacher.getattr\<close>.\<close>

definition Cacher_getattr :: "Cacher \<Rightarrow> world \<Rightarrow> string \<Rightarrow> state \<Rightarrow> (error + stat) \<times> state" where
  "Cacher_getattr C W path st =
     (case get_cache_dir C path (Some ''cache.stat'') of
        Inl e \<Rightarrow> (Inl e, st)
      | Inr cache_dir \<Rightarrow>
          if path_exists st cache_dir then (load_stat st cache_dir, st)
          else
            let t = tree_now W st; st1 = record_call (Ugetattr path) st in
            (case UnderlyingFs_getattr (underlying_fs C) t path of
               Inl e \<Rightarrow> (Inl e, st1)
             | Inr result \<Rightarrow>
                 (case create_cache_dir C path st1 of
                    (Inl e, st2) \<Rightarrow> (Inl e, st2)
                  | (Inr u, st2) \<Rightarrow>
                      (case put_file cache_dir (PickledStat result) st2 of
                         (Inl e, st3) \<Rightarrow> (Inl e, st3)
                       | (Inr u, st3) \<Rightarrow> (Inr result, st3)))))"

text \<open>\<open>Cacher.readdir\<close>; the generator it returns is the list of its items.\<close>

definition Cacher_readdir ::
  "Cacher \<Rightarrow> world \<Rightarrow> string \<Rightarrow> int \<Rightarrow> state \<Rightarrow> (error + string list) \<times> state" where
  "Cacher_readdir C W path offset st =
     (case get_cache_dir C path (Some ''cache.list'') of
        Inl e \<Rightarrow> (Inl e, st)
      | Inr cache_dir \<Rightarrow>
          if path_exists st cache_dir then (load_list st cache_dir, st)
          else
            let t = tree_now W st; st1 = record_call (Ureaddir path offset) st in
            (case UnderlyingFs_readdir (underlying_fs C) t path offset of
               Inl e \<Rightarrow> (Inl e, st1)
             | Inr result \<Rightarrow>
                 (case create_cache_dir C path st1 of
                    (Inl e, st2) \<Rightarrow> (Inl e, st2)
                  | (Inr u, st2) \<Rightarrow>
                      (case put_file cache_dir (PickledList result) st2 of
                         (Inl e, st3) \<Rightarrow> (Inl e, st3)
                       | (Inr u, st3) \<Rightarrow> (Inr result, st3)))))"

text \<open>
  \<open>Cacher.read\<close>, in the order of the source. First the \<open>Ranges\<close> object that says which
  chunks of the file are cached: loaded from \<open>cache.data.range\<close> if that exists, a new one
  otherwise.
\<close>

definition load_cached_blocks :: "state \<Rightarrow> string \<Rightarrow> error + Ranges" where
  "load_cached_blocks st data_cache_range =
     (if path_exists st data_cache_range then load_ranges st data_cache_range
      else Inr Ranges_new)"

text \<open>
  The cache file is created if it does not exist already: a file full of zeroes of the
  size that \<open>self.getattr(path)\<close> reports for the real file.
\<close>

definition create_cache_file ::
  "Cacher \<Rightarrow> world \<Rightarrow> string \<Rightarrow> string \<Rightarrow> state \<Rightarrow> (error + unit) \<times> state" where
  "create_cache_file C W path cache_data st =
     (if \<not> path_exists st cache_data then
        (case Cacher_getattr C W path st of
           (Inl e, st1) \<Rightarrow> (Inl e, st1)
         | (Inr file_stat, st1) \<Rightarrow>
             (case create_cache_dir C path st1 of
                (Inl e, st2) \<Rightarrow> (Inl e, st2)
              | (Inr u, st2) \<Rightarrow> create_blank cache_data (st_size file_stat) st2))
      else (Inr (), st))"

text \<open>
  The loop over \<open>blocks_to_read\<close>:
  \<^verbatim>\<open>for block in blocks_to_read:
    block_data = self.underlying_fs.read(path, block.size, block.start)
    cached_blocks.add_range(block)
    cache_data_file.seek(block.start)
    cache_data_file.write(block_data)\<close>
  It returns \<open>cached_blocks\<close> as the loop leaves it. An exception ends the loop; the
  \<open>with\<close> statement around it closes the data file, which keeps what was written.
\<close>

fun fetch_blocks ::
  "Cacher \<Rightarrow> world \<Rightarrow> string \<Rightarrow> string \<Rightarrow> Range list \<Rightarrow> Ranges \<Rightarrow> state
   \<Rightarrow> (error + Ranges) \<times> state" where
  "fetch_blocks C W path cache_data [] cached_blocks st = (Inr cached_blocks, st)"
| "fetch_blocks C W path cache_data (block # blocks) cached_blocks st =
     (let t = tree_now W st;
          st1 = record_call (Uread path (range_size block) (start block)) st in
      case UnderlyingFs_read (underlying_fs C) t path (range_size block) (start block) of
        Inl e \<Rightarrow> (Inl e, st1)
      | Inr block_data \<Rightarrow>
          (let cached_blocks1 = add_range cached_blocks block in
           case seek_write cache_data (start block) block_data st1 of
             (Inl e, st2) \<Rightarrow> (Inl e, st2)
           | (Inr u, st2) \<Rightarrow> fetch_blocks C W path cache_data blocks cached_blocks1 st2))"

text \<open>
  If there are blocks to read: the data file is opened in update mode, the blocks are
  fetched, and then \<open>cached_blocks\<close> is dumped to \<open>cache.data.range\<close>.
\<close>

definition fetch_and_dump ::
  "Cacher \<Rightarrow> world \<Rightarrow> string \<Rightarrow> string \<Rightarrow> string \<Rightarrow> Range list \<Rightarrow> Ranges \<Rightarrow> state
   \<Rightarrow> (error + unit) \<times> state" where
  "fetch_and_dump C W path cache_data data_cache_range blocks_to_read cached_blocks st =
     (if length blocks_to_read > 0 then
        (case open_existing st cache_data of
           Inl e \<Rightarrow> (Inl e, st)
         | Inr f \<Rightarrow>
             (case fetch_blocks C W path cache_data blocks_to_read cached_blocks st of
                (Inl e, st1) \<Rightarrow> (Inl e, st1)
              | (Inr cached_blocks1, st1) \<Rightarrow>
                  put_file data_cache_range (PickledRanges cached_blocks1) st1))
      else (Inr (), st))"

text \<open>The final read of the requested range from the cached file.\<close>

definition read_cache_file :: "string \<Rightarrow> int \<Rightarrow> int \<Rightarrow> state \<Rightarrow> (error + bytes) \<times> state" where
  "read_cache_file cache_data offset sz st =
     (case open_existing st cache_data of
        Inl e \<Rightarrow> (Inl e, st)
      | Inr (Data bs) \<Rightarrow> (seek_read bs offset sz, st)
      | Inr _ \<Rightarrow> (Inl WrongFileKind, st))"

definition Cacher_read ::
  "Cacher \<Rightarrow> world \<Rightarrow> string \<Rightarrow> int \<Rightarrow> int \<Rightarrow> state \<Rightarrow> (error + bytes) \<times> state" where
  "Cacher_read C W path sz offset st =
     (case get_cache_dir C path (Some ''cache.data'') of
        Inl e \<Rightarrow> (Inl e, st)
      | Inr cache_data \<Rightarrow>
     (case get_cache_dir C path (Some ''cache.data.range'') of
        Inl e \<Rightarrow> (Inl e, st)
      | Inr data_cache_range \<Rightarrow>
     (case load_cached_blocks st data_cache_range of
        Inl e \<Rightarrow> (Inl e, st)
      | Inr cached_blocks \<Rightarrow>
     (let requested_range = Range offset (offset + sz);
          blocks_to_read = get_uncovered_portions cached_blocks requested_range in
      case create_cache_file C W path cache_data st of
        (Inl e, st1) \<Rightarrow> (Inl e, st1)
      | (Inr u, st1) \<Rightarrow>
     (case fetch_and_dump C W path cache_data data_cache_range blocks_to_read cached_blocks st1 of
        (Inl e, st2) \<Rightarrow> (Inl e, st2)
      | (Inr u, st2) \<Rightarrow> read_cache_file cache_data offset sz st2)))))"

section \<open>The FUSE class (class \<open>PersistentCacheFs\<close>)\<close>

text \<open>
  \<open>PersistentCacheFs.open\<close>. Python's \<open>&\<close> binds tighter than \<open>!=\<close>, so the test compares
  the access mode bits of \<open>flags\<close> with \<open>os.O_RDONLY\<close>.
\<close>

definition PersistentCacheFs_open :: "string \<Rightarrow> int \<Rightarrow> int" where
  "PersistentCacheFs_open path flags =
     (let access_flags = or (or O_RDONLY O_WRONLY) O_RDWR in
      if and flags access_flags \<noteq> O_RDONLY then - EACCES else 0)"

text \<open>
  \<open>PersistentCacheFs.getattr\<close>, \<open>readdir\<close> and \<open>read\<close> hand their arguments to the cacher.
\<close>

definition PersistentCacheFs_getattr ::
  "Cacher \<Rightarrow> world \<Rightarrow> string \<Rightarrow> state \<Rightarrow> (error + stat) \<times> state" where
  "PersistentCacheFs_getattr C W path st = Cacher_getattr C W path st"

definition PersistentCacheFs_readdir ::
  "Cacher \<Rightarrow> world \<Rightarrow> string \<Rightarrow> int \<Rightarrow> state \<Rightarrow> (error + string list) \<times> state" where
  "PersistentCacheFs_readdir C W path offset st = Cacher_readdir C W path offset st"

definition PersistentCacheFs_read ::
  "Cacher \<Rightarrow> world \<Rightarrow> string \<Rightarrow> int \<Rightarrow> int \<Rightarrow> state \<Rightarrow> (error + bytes) \<times> state" where
  "PersistentCacheFs_read C W path sz offset st = Cacher_read C W path sz offset st"

section \<open>Coverage records and sequences of requests\<close>

text \<open>
  The invariant of the coverage records of the cache: every \<open>Ranges\<close> object stored in
  the cache directory satisfies the invariant of Coverage. It holds in the empty
  cache, and every operation of the cacher keeps it.
\<close>

definition coverage_records_ok :: "state \<Rightarrow> bool" where
  "coverage_records_ok st = (\<forall>p cs. files st p = Some (PickledRanges cs) \<longrightarrow> coverage_ok cs)"

text \<open>
  The requests that the FUSE class hands to the cacher, and the state after serving
  a sequence of them, whatever each of them returns or raises.
\<close>

datatype request =
    Getattr string
  | Readdir string int
  | Read string int int

fun serve :: "Cacher \<Rightarrow> world \<Rightarrow> state \<Rightarrow> request \<Rightarrow> state" where
  "serve C W st (Getattr path) = snd (PersistentCacheFs_getattr C W path st)"
| "serve C W st (Readdir path offset) = snd (PersistentCacheFs_readdir C W path offset st)"
| "serve C W st (Read path sz offset) = snd (PersistentCacheFs_read C W path sz offset st)"

definition serve_all :: "Cacher \<Rightarrow> world \<Rightarrow> request list \<Rightarrow> state \<Rightarrow> state" where
  "serve_all C W reqs st = foldl (serve C W) st reqs"

section \<open>A target directory with one file\<close>

text \<open>
  The scenario of the specification: the target directory \<open>/target\<close> holds the file
  \<open>a.txt\<close> of size 10 with content \<open>0123456789\<close>; the cache directory \<open>/cache\<close> does not
  exist yet, and \<open>Cacher.__init__\<close> creates it.
\<close>

definition a_stat :: stat where
  "a_stat = \<lparr>st_mode = 33188, st_nlink = 1, st_size = 10, st_atime = 0, st_mtime = 0,
      st_ctime = 0, st_dev = 1, st_gid = 0, st_ino = 7, st_uid = 0\<rparr>"

text \<open>
  The target directory \<open>/target\<close> with one file in it: the directory itself, the file, the
  names below the file, which are refused with \<open>ENOTDIR\<close>, and all other names, for which
  there is no such file or directory.
\<close>

definition dir_stat :: stat where
  "dir_stat = \<lparr>st_mode = 16877, st_nlink = 2, st_size = 4096, st_atime = 0, st_mtime = 0,
      st_ctime = 0, st_dev = 1, st_gid = 0, st_ino = 2, st_uid = 0\<rparr>"

definition single_file_tree :: "string \<Rightarrow> stat \<Rightarrow> bytes \<Rightarrow> ostree" where
  "single_file_tree name m bs =
     (\<lambda>p. if p = ''/target/'' @ name then Inr (File m bs)
          else if p = ''/target'' then Inr (Dir dir_stat [name])
          else if take (length (''/target/'' @ name @ ''/'')) p = ''/target/'' @ name @ ''/''
            then Inl ENOTDIR
          else Inl ENOENT)"

definition empty_dir_tree :: ostree where
  "empty_dir_tree = (\<lambda>p. if p = ''/target'' then Inr (Dir dir_stat []) else Inl ENOENT)"

definition a_tree :: ostree where
  "a_tree = single_file_tree ''a.txt'' a_stat ''0123456789''"

definition a_world :: world where
  "a_world = (\<lambda>n. a_tree)"

definition a_cacher :: Cacher where
  "a_cacher = fst (Cacher_init ''/cache'' \<lparr>real_path = ''/target''\<rparr> empty_state)"

definition a_state :: state where
  "a_state = snd (Cacher_init ''/cache'' \<lparr>real_path = ''/target''\<rparr> empty_state)"

text \<open>
  The same target directory, in which \<open>a.txt\<close> is cut down to its first five bytes after
  the first call to the underlying file system.
\<close>

definition cut_tree :: ostree where
  "cut_tree = single_file_tree ''a.txt'' a_stat ''01234''"

definition cut_world :: world where
  "cut_world = (\<lambda>n. if n = 0 then a_tree else cut_tree)"

text \<open>The state after reading 3 bytes at offset 2 of \<open>/a.txt\<close> from the empty cache.\<close>

definition a_state1 :: state where
  "a_state1 = snd (Cacher_read a_cacher a_world ''/a.txt'' 3 2 a_state)"


text \<open>
  The same target directory, in which \<open>a.txt\<close> is removed after the third call to the
  underlying file system.
\<close>

definition vanish_world :: world where
  "vanish_world = (\<lambda>n. if n < 3 then a_tree else empty_dir_tree)"

text \<open>A target directory with an empty file.\<close>

definition empty_stat :: stat where
  "empty_stat = \<lparr>st_mode = 33188, st_nlink = 1, st_size = 0, st_atime = 0, st_mtime = 0,
      st_ctime = 0, st_dev = 1, st_gid = 0, st_ino = 8, st_uid = 0\<rparr>"

definition empty_file_tree :: ostree where
  "empty_file_tree = single_file_tree ''empty'' empty_stat []"

definition empty_file_world :: world where
  "empty_file_world = (\<lambda>n. empty_file_tree)"

text \<open>
  A target directory with a directory \<open>dir\<close> in it that holds the given names, before
  and after its content changes, and the state after listing \<open>/dir\<close> and asking for its
  attributes from the empty cache.
\<close>

definition dir_tree :: "string list \<Rightarrow> ostree" where
  "dir_tree names =
     (\<lambda>p. if p = ''/target/dir'' then Inr (Dir dir_stat names)
          else if p = ''/target'' then Inr (Dir dir_stat [''dir''])
          else Inl ENOENT)"

definition dir_world :: world where
  "dir_world = (\<lambda>n. dir_tree [''x'', ''y''])"

definition changed_world :: world where
  "changed_world = (\<lambda>n. dir_tree [''z''])"

definition dir_state1 :: state where
  "dir_state1 = snd (Cacher_readdir a_cacher dir_world ''/dir'' 0 a_state)"

definition dir_state2 :: state where
  "dir_state2 = snd (Cacher_getattr a_cacher dir_world ''/dir'' a_state)"

section \<open>Properties of the range coverage tracker\<close>

lemma coverage_ok_Cons:
  "coverage_ok (c # cs) \<longleftrightarrow>
     start c < stop c \<and> (\<forall>d \<in> set cs. stop c < start d) \<and> coverage_ok cs"
proof (induction cs arbitrary: c)
  case Nil
  show ?case by simp
next
  case (Cons d ds)
  show ?case
    using Cons.IH [of d] by fastforce
qed

lemma covered_Nil: "covered [] = {}"
  by (simp add: covered_def)

lemma covered_Cons: "covered (c # cs) = range_set c \<union> covered cs"
  by (simp add: covered_def)

lemma covered_append: "covered (xs @ ys) = covered xs \<union> covered ys"
  by (auto simp: covered_def)

lemma merge_range_lower:
  "x < start r \<Longrightarrow> \<forall>d \<in> set cs. x < start d \<Longrightarrow> \<forall>d \<in> set (merge_range r cs). x < start d"
  by (induction r cs rule: merge_range.induct) auto

lemma merge_range_ok:
  "coverage_ok cs \<Longrightarrow> start r < stop r \<Longrightarrow> coverage_ok (merge_range r cs)"
proof (induction r cs rule: merge_range.induct)
  case (1 r)
  then show ?case by simp
next
  case (2 r c cs)
  from "2.prems" have c: "start c < stop c" and cs: "coverage_ok cs"
    and sep: "\<forall>d \<in> set cs. stop c < start d"
    by (simp_all add: coverage_ok_Cons)
  show ?case
  proof (cases "stop r < start c")
    case True
    then show ?thesis using "2.prems" c cs sep by (fastforce simp: coverage_ok_Cons)
  next
    case before: False
    show ?thesis
    proof (cases "stop c < start r")
      case True
      have "coverage_ok (merge_range r cs)"
        using "2.IH"(1) before True cs "2.prems"(2) by simp
      moreover have "\<forall>d \<in> set (merge_range r cs). stop c < start d"
        using merge_range_lower [OF True sep] .
      ultimately show ?thesis using before True c by (simp add: coverage_ok_Cons)
    next
      case False
      then show ?thesis
        using "2.IH"(2) before cs c "2.prems"(2) by simp
    qed
  qed
qed

lemma merge_range_covered:
  "coverage_ok cs \<Longrightarrow> start r < stop r \<Longrightarrow>
   covered (merge_range r cs) = range_set r \<union> covered cs"
proof (induction r cs rule: merge_range.induct)
  case (1 r)
  then show ?case by (simp add: covered_def)
next
  case (2 r c cs)
  from "2.prems" have c: "start c < stop c" and cs: "coverage_ok cs"
    by (simp_all add: coverage_ok_Cons)
  show ?case
  proof (cases "stop r < start c")
    case True
    then show ?thesis by (simp add: covered_Cons)
  next
    case before: False
    show ?thesis
    proof (cases "stop c < start r")
      case True
      then show ?thesis
        using "2.IH"(1) before cs "2.prems"(2) by (auto simp: covered_Cons)
    next
      case False
      let ?m = "Range (min (start r) (start c)) (max (stop r) (stop c))"
      have "covered (merge_range ?m cs) = range_set ?m \<union> covered cs"
        using "2.IH"(2) before False cs c "2.prems"(2) by simp
      moreover have "range_set ?m = range_set r \<union> range_set c"
        using before False c "2.prems"(2) by (auto simp: range_set_def)
      ultimately show ?thesis using before False by (simp add: covered_Cons Un_assoc)
    qed
  qed
qed

lemma add_range_ok: "coverage_ok cs \<Longrightarrow> coverage_ok (add_range cs r)"
  by (simp add: add_range_def merge_range_ok)

lemma add_range_covered:
  "coverage_ok cs \<Longrightarrow> covered (add_range cs r) = covered cs \<union> range_set r"
  by (auto simp: add_range_def merge_range_covered range_set_def)

lemma foldl_add_range:
  "coverage_ok cs \<Longrightarrow>
   coverage_ok (foldl add_range cs rs) \<and>
   covered (foldl add_range cs rs) = covered cs \<union> covered rs"
proof (induction rs arbitrary: cs)
  case Nil
  then show ?case by (simp add: covered_Nil)
next
  case (Cons r rs)
  have ok: "coverage_ok (add_range cs r)" using Cons.prems by (rule add_range_ok)
  show ?case
    using Cons.IH [OF ok] add_range_covered [OF Cons.prems, of r]
    by (simp add: covered_Cons Un_assoc)
qed

lemma uncovered_lower: "\<forall>g \<in> set (uncovered lo hi cs). lo \<le> start g"
proof (induction lo hi cs rule: uncovered.induct)
  case (1 lo hi)
  show ?case by simp
next
  case (2 lo hi c cs)
  show ?case
  proof
    fix g
    assume g: "g \<in> set (uncovered lo hi (c # cs))"
    show "lo \<le> start g"
      using g "2.IH" by (fastforce split: if_splits)
  qed
qed

lemma uncovered_ok: "coverage_ok cs \<Longrightarrow> coverage_ok (uncovered lo hi cs)"
proof (induction lo hi cs rule: uncovered.induct)
  case (1 lo hi)
  show ?case by simp
next
  case (2 lo hi c cs)
  from "2.prems" have c: "start c < stop c" and cs: "coverage_ok cs"
    by (simp_all add: coverage_ok_Cons)
  have low: "\<forall>g \<in> set (uncovered (stop c) hi cs). stop c \<le> start g"
    by (rule uncovered_lower)
  show ?case
    using "2.IH" cs c low by (auto simp: coverage_ok_Cons not_le not_less)
qed

lemma uncovered_covered:
  "coverage_ok cs \<Longrightarrow> covered (uncovered lo hi cs) = {lo ..< hi} - covered cs"
proof (induction lo hi cs rule: uncovered.induct)
  case (1 lo hi)
  show ?case by (simp add: covered_def range_set_def)
next
  case (2 lo hi c cs)
  from "2.prems" have c: "start c < stop c" and cs: "coverage_ok cs"
    and sep: "\<forall>d \<in> set cs. stop c < start d"
    by (simp_all add: coverage_ok_Cons)
  have later: "\<And>x. x \<in> covered cs \<Longrightarrow> stop c < x"
    using sep by (fastforce simp: covered_def range_set_def)
  show ?case
  proof (cases "hi \<le> lo")
    case True
    then show ?thesis by (simp add: covered_Nil)
  next
    case nonempty: False
    show ?thesis
    proof (cases "stop c \<le> lo")
      case True
      then show ?thesis
        using "2.IH"(1) nonempty cs by (auto simp: covered_Cons range_set_def)
    next
      case inside: False
      show ?thesis
      proof (cases "hi \<le> start c")
        case True
        then show ?thesis
          using nonempty inside c later
          by (fastforce simp: covered_Cons covered_Nil range_set_def)
      next
        case reach: False
        show ?thesis
        proof (cases "lo < start c")
          case True
          have "covered (uncovered (stop c) hi cs) = {stop c ..< hi} - covered cs"
            using "2.IH"(2) nonempty inside reach True cs by simp
          then show ?thesis
            using nonempty inside reach True c later
            by (fastforce simp: covered_Cons range_set_def)
        next
          case False
          have "covered (uncovered (stop c) hi cs) = {stop c ..< hi} - covered cs"
            using "2.IH"(3) nonempty inside reach False cs by simp
          then show ?thesis
            using nonempty inside reach False c later
            by (fastforce simp: covered_Cons range_set_def)
        qed
      qed
    qed
  qed
qed

lemma coverage_ok_pairwise:
  "coverage_ok gs \<Longrightarrow> g \<in> set gs \<Longrightarrow> h \<in> set gs \<Longrightarrow>
   g = h \<or> stop g < start h \<or> stop h < start g"
  by (induction gs) (auto simp: coverage_ok_Cons)

lemma coverage_ok_nonempty: "coverage_ok gs \<Longrightarrow> g \<in> set gs \<Longrightarrow> start g < stop g"
  by (induction gs) (auto simp: coverage_ok_Cons)

lemma coverage_ok_nth:
  "coverage_ok gs \<Longrightarrow> i < j \<Longrightarrow> j < length gs \<Longrightarrow> stop (gs ! i) < start (gs ! j)"
proof (induction gs arbitrary: i j)
  case Nil
  then show ?case by simp
next
  case (Cons g gs)
  show ?case
  proof (cases i)
    case 0
    then have "gs ! (j - 1) \<in> set gs" using Cons.prems by simp
    then show ?thesis using 0 Cons.prems by (simp add: coverage_ok_Cons)
  next
    case (Suc i')
    then obtain j' where j: "j = Suc j'" using Cons.prems(2) by (cases j) auto
    show ?thesis using Cons.IH [of i' j'] Cons.prems Suc j by (simp add: coverage_ok_Cons)
  qed
qed

lemma coverage_ok_distinct: "coverage_ok gs \<Longrightarrow> distinct gs"
  by (induction gs) (auto simp: coverage_ok_Cons)

lemma coverage_ok_maximal:
  assumes ok: "coverage_ok gs" and g: "g \<in> set gs"
  shows "start g - 1 \<notin> covered gs" and "stop g \<notin> covered gs"
proof -
  have ne: "start g < stop g" using ok g by (rule coverage_ok_nonempty)
  show "start g - 1 \<notin> covered gs"
  proof
    assume "start g - 1 \<in> covered gs"
    then obtain h where h: "h \<in> set gs" and in_h: "start h \<le> start g - 1" "start g - 1 < stop h"
      by (auto simp: covered_def range_set_def)
    from coverage_ok_pairwise [OF ok g h] ne in_h show False by auto
  qed
  show "stop g \<notin> covered gs"
  proof
    assume "stop g \<in> covered gs"
    then obtain h where h: "h \<in> set gs" and in_h: "start h \<le> stop g" "stop g < stop h"
      by (auto simp: covered_def range_set_def)
    from coverage_ok_pairwise [OF ok g h] ne in_h show False by auto
  qed
qed

lemma coverage_ok_minimal:
  assumes ok: "coverage_ok gs" and same: "covered hs = covered gs"
  shows "length gs \<le> length hs"
proof -
  have ex: "\<exists>h. h \<in> set hs \<and> start g \<in> range_set h" if g: "g \<in> set gs" for g
  proof -
    have "start g \<in> range_set g"
      using coverage_ok_nonempty [OF ok g] by (simp add: range_set_def)
    then have "start g \<in> covered hs" using g same by (auto simp: covered_def)
    then show ?thesis by (auto simp: covered_def)
  qed
  define f where "f g = (SOME h. h \<in> set hs \<and> start g \<in> range_set h)" for g
  have f: "f g \<in> set hs \<and> start g \<in> range_set (f g)" if "g \<in> set gs" for g
    unfolding f_def using ex [OF that] by (rule someI_ex)
  have inj: "inj_on f (set gs)"
  proof (rule inj_onI)
    fix g g'
    assume g: "g \<in> set gs" and g': "g' \<in> set gs" and eq: "f g = f g'"
    have sep: "stop a \<notin> range_set (f a)" if "a \<in> set gs" for a
    proof
      assume "stop a \<in> range_set (f a)"
      then have "stop a \<in> covered hs" using f [OF that] by (auto simp: covered_def)
      then show False using coverage_ok_maximal(2) [OF ok that] same by simp
    qed
    show "g = g'"
    proof (rule ccontr)
      assume ne: "g \<noteq> g'"
      from coverage_ok_pairwise [OF ok g g'] ne
      consider "stop g < start g'" | "stop g' < start g" by auto
      then show False
      proof cases
        case 1
        have "start g \<in> range_set (f g)" "start g' \<in> range_set (f g)"
          using f [OF g] f [OF g'] eq by simp_all
        then have "stop g \<in> range_set (f g)"
          using 1 coverage_ok_nonempty [OF ok g] by (simp add: range_set_def)
        then show False using sep [OF g] by simp
      next
        case 2
        have "start g \<in> range_set (f g')" "start g' \<in> range_set (f g')"
          using f [OF g] f [OF g'] eq by simp_all
        then have "stop g' \<in> range_set (f g')"
          using 2 coverage_ok_nonempty [OF ok g'] by (simp add: range_set_def)
        then show False using sep [OF g'] by simp
      qed
    qed
  qed
  have "f ` set gs \<subseteq> set hs" using f by auto
  then have "card (set gs) \<le> card (set hs)"
    using inj by (simp add: card_inj_on_le)
  moreover have "card (set gs) = length gs"
    using coverage_ok_distinct [OF ok] by (simp add: distinct_card)
  moreover have "card (set hs) \<le> length hs" by (rule card_length)
  ultimately show ?thesis by simp
qed

lemma uncovered_Nil_iff:
  "coverage_ok cs \<Longrightarrow> uncovered lo hi cs = [] \<longleftrightarrow> {lo ..< hi} \<subseteq> covered cs"
proof -
  assume ok: "coverage_ok cs"
  have "uncovered lo hi cs = [] \<longleftrightarrow> covered (uncovered lo hi cs) = {}"
  proof
    assume "uncovered lo hi cs = []" then show "covered (uncovered lo hi cs) = {}"
      by (simp add: covered_Nil)
  next
    assume e: "covered (uncovered lo hi cs) = {}"
    show "uncovered lo hi cs = []"
    proof (cases "uncovered lo hi cs")
      case Nil then show ?thesis .
    next
      case (Cons g gs)
      then have g: "g \<in> set (uncovered lo hi cs)" by simp
      have "start g < stop g"
        using coverage_ok_nonempty [OF uncovered_ok [OF ok] g] .
      then have "start g \<in> covered (uncovered lo hi cs)"
        using g by (auto simp: covered_def range_set_def)
      then show ?thesis using e by simp
    qed
  qed
  then show ?thesis using uncovered_covered [OF ok, of lo hi] by auto
qed


section \<open>Path names and the effect of each step on the state\<close>

lemma path_join_relative:
  "f \<noteq> [] \<Longrightarrow> hd f \<noteq> CHR ''/'' \<Longrightarrow>
   path_join d f = d @ (if d = [] \<or> last d = CHR ''/'' then f else CHR ''/'' # f)"
  by (simp add: path_join_def)

lemma path_join_neq_dir:
  "f \<noteq> [] \<Longrightarrow> hd f \<noteq> CHR ''/'' \<Longrightarrow> path_join d f \<noteq> d"
  by (simp add: path_join_relative)

lemma path_join_eq_iff:
  "f \<noteq> [] \<Longrightarrow> hd f \<noteq> CHR ''/'' \<Longrightarrow> g \<noteq> [] \<Longrightarrow> hd g \<noteq> CHR ''/'' \<Longrightarrow>
   path_join d f = path_join d g \<longleftrightarrow> f = g"
  by (simp add: path_join_relative)

lemma get_cache_dir_slash:
  "get_cache_dir C (CHR ''/'' # rest) None = Inr (path_join (cachedir C) rest)"
  "get_cache_dir C (CHR ''/'' # rest) (Some f) = Inr (path_join (path_join (cachedir C) rest) f)"
  by (simp_all add: get_cache_dir_def)

lemma get_real_path_slash:
  "get_real_path ufs (CHR ''/'' # rest) = Inr (path_join (real_path ufs) rest)"
  by (simp add: get_real_path_def)

lemma state_simps:
  "files (record_call c st) = files st"
  "dirs (record_call c st) = dirs st"
  "calls (record_call c st) = calls st @ [c]"
  "files (mkdir p st) = files st"
  "calls (mkdir p st) = calls st"
  by (simp_all add: record_call_def mkdir_def)


lemma not_path_exists: "\<not> path_exists st p \<longleftrightarrow> files st p = None \<and> p \<notin> dirs st"
  by (simp add: path_exists_def split: option.splits)

lemma dirs_mkdir: "dirs (mkdir p st) = (if path_exists st p then dirs st else insert p (dirs st))"
  by (simp add: mkdir_def)

lemma put_file_cases:
  "put_file p c st = (r, st') \<Longrightarrow>
   (r = Inl (IOError EISDIR) \<and> st' = st \<and> p \<in> dirs st) \<or>
   (r = Inr () \<and> st' = st\<lparr>files := (files st)(p \<mapsto> c)\<rparr> \<and> p \<notin> dirs st)"
  by (auto simp: put_file_def split: if_splits)

text \<open>What \<open>Cacher.getattr\<close> does to the state.\<close>

lemma Cacher_getattr_cached:
  "path_exists st (path_join (path_join (cachedir C) rest) ''cache.stat'') \<Longrightarrow>
   Cacher_getattr C W (CHR ''/'' # rest) st =
     (load_stat st (path_join (path_join (cachedir C) rest) ''cache.stat''), st)"
  by (simp add: Cacher_getattr_def get_cache_dir_slash)

lemma Cacher_getattr_effect:
  assumes run: "Cacher_getattr C W path st = (r, st1)"
  shows "dirs st \<subseteq> dirs st1"
    and "\<forall>rest. path = CHR ''/'' # rest \<longrightarrow> dirs st1 \<subseteq> insert (path_join (cachedir C) rest) (dirs st)"
    and "\<forall>p. files st1 p = files st p \<or>
           (files st p = None \<and> (\<exists>s. files st1 p = Some (PickledStat s)) \<and>
            (\<forall>rest. path = CHR ''/'' # rest \<longrightarrow>
               p = path_join (path_join (cachedir C) rest) ''cache.stat''))"
proof -
  show "dirs st \<subseteq> dirs st1"
    using run
    by (auto simp: Cacher_getattr_def get_cache_dir_def create_cache_dir_def Let_def
        state_simps dirs_mkdir put_file_def
        split: list.splits if_splits sum.splits prod.splits)
  show "\<forall>rest. path = CHR ''/'' # rest \<longrightarrow> dirs st1 \<subseteq> insert (path_join (cachedir C) rest) (dirs st)"
    using run
    by (auto simp: Cacher_getattr_def get_cache_dir_def create_cache_dir_def Let_def
        state_simps dirs_mkdir put_file_def
        split: list.splits if_splits sum.splits prod.splits)
  show "\<forall>p. files st1 p = files st p \<or>
           (files st p = None \<and> (\<exists>s. files st1 p = Some (PickledStat s)) \<and>
            (\<forall>rest. path = CHR ''/'' # rest \<longrightarrow>
               p = path_join (path_join (cachedir C) rest) ''cache.stat''))"
    using run
    by (auto simp: Cacher_getattr_def get_cache_dir_def create_cache_dir_def Let_def
        state_simps dirs_mkdir put_file_def not_path_exists
        split: list.splits if_splits sum.splits prod.splits)
qed

lemma create_cache_dir_slash:
  "create_cache_dir C (CHR ''/'' # rest) st = (Inr (), mkdir (path_join (cachedir C) rest) st)"
  by (simp add: create_cache_dir_def get_cache_dir_slash)

lemma fetch_blocks_append:
  "fetch_blocks C W path cache_data (bs1 @ bs2) cached_blocks st =
     (case fetch_blocks C W path cache_data bs1 cached_blocks st of
        (Inl e, st1) \<Rightarrow> (Inl e, st1)
      | (Inr cb1, st1) \<Rightarrow> fetch_blocks C W path cache_data bs2 cb1 st1)"
  by (induction bs1 arbitrary: cached_blocks st)
     (simp_all add: Let_def split: sum.splits prod.splits)

lemma seek_write_effect:
  "seek_write p pos data st = (r, st') \<Longrightarrow>
   dirs st' = dirs st \<and> calls st' = calls st \<and>
   (\<forall>q. q \<noteq> p \<longrightarrow> files st' q = files st q) \<and>
   (files st' p = files st p \<or>
      (\<exists>bs bs'. files st p = Some (Data bs) \<and> files st' p = Some (Data bs')))"
  by (auto simp: seek_write_def split: option.splits cfile.splits if_splits)

lemma fetch_blocks_effect:
  "fetch_blocks C W path p blocks cached_blocks st = (r, st') \<Longrightarrow>
   dirs st' = dirs st \<and>
   (\<forall>q. q \<noteq> p \<longrightarrow> files st' q = files st q) \<and>
   (files st' p = files st p \<or>
      (\<exists>bs bs'. files st p = Some (Data bs) \<and> files st' p = Some (Data bs')))"
proof (induction blocks arbitrary: cached_blocks st)
  case Nil
  then show ?case by simp
next
  case (Cons block blocks)
  let ?st1 = "record_call (Uread path (range_size block) (start block)) st"
  show ?case
  proof (cases "UnderlyingFs_read (underlying_fs C) (tree_now W st) path (range_size block) (start block)")
    case (Inl e)
    then show ?thesis using Cons.prems by (auto simp: Let_def state_simps)
  next
    case (Inr block_data)
    obtain r2 st2 where w: "seek_write p (start block) block_data ?st1 = (r2, st2)"
      by (cases "seek_write p (start block) block_data ?st1")
    note eff = seek_write_effect [OF w, unfolded state_simps]
    show ?thesis
    proof (cases r2)
      case (Inl e)
      then have "st' = st2" using Cons.prems Inr w by (simp add: Let_def)
      then show ?thesis using eff by simp
    next
      case ok: (Inr u)
      have "fetch_blocks C W path p blocks (add_range cached_blocks block) st2 = (r, st')"
        using Cons.prems Inr w ok by (simp add: Let_def)
      from Cons.IH [OF this] eff show ?thesis by auto
    qed
  qed
qed

lemma fetch_blocks_result:
  "fetch_blocks C W path p blocks cached_blocks st = (Inr cb, st') \<Longrightarrow>
   cb = foldl add_range cached_blocks blocks"
proof (induction blocks arbitrary: cached_blocks st)
  case Nil
  then show ?case by simp
next
  case (Cons block blocks)
  then show ?case
    by (auto simp: Let_def split: sum.splits prod.splits)
qed

lemma create_blank_effect:
  "create_blank p n st = (r, st') \<Longrightarrow>
   dirs st' = dirs st \<and> calls st' = calls st \<and>
   (\<forall>q. q \<noteq> p \<longrightarrow> files st' q = files st q) \<and>
   (files st' p = files st p \<or> (\<exists>bs. files st' p = Some (Data bs)))"
  by (auto simp: create_blank_def Let_def split: if_splits)

lemma create_cache_file_effect:
  assumes run: "create_cache_file C W (CHR ''/'' # rest)
                  (path_join (path_join (cachedir C) rest) ''cache.data'') st = (r, st1)"
  shows "dirs st \<subseteq> dirs st1"
    and "dirs st1 \<subseteq> insert (path_join (cachedir C) rest) (dirs st)"
    and "\<forall>p. p \<noteq> path_join (path_join (cachedir C) rest) ''cache.stat'' \<and>
             p \<noteq> path_join (path_join (cachedir C) rest) ''cache.data'' \<longrightarrow>
             files st1 p = files st p"
    and "\<forall>p c. files st p = Some c \<longrightarrow> files st1 p = Some c"
proof -
  let ?dir = "path_join (cachedir C) rest"
  let ?data = "path_join ?dir ''cache.data''"
  let ?stat = "path_join ?dir ''cache.stat''"
  have all: "dirs st \<subseteq> dirs st1 \<and> dirs st1 \<subseteq> insert ?dir (dirs st) \<and>
      (\<forall>p. p \<noteq> ?stat \<and> p \<noteq> ?data \<longrightarrow> files st1 p = files st p) \<and>
      (\<forall>p c. files st p = Some c \<longrightarrow> files st1 p = Some c)"
  proof (cases "path_exists st ?data")
    case True
    then show ?thesis using run by (auto simp: create_cache_file_def)
  next
    case False
    obtain ra sta where ga: "Cacher_getattr C W (CHR ''/'' # rest) st = (ra, sta)"
      by (cases "Cacher_getattr C W (CHR ''/'' # rest) st")
    note eff = Cacher_getattr_effect [OF ga]
    have d1: "dirs st \<subseteq> dirs sta" and d2: "dirs sta \<subseteq> insert ?dir (dirs st)"
      using eff(1) eff(2) by simp_all
    have f1: "\<forall>p. p \<noteq> ?stat \<longrightarrow> files sta p = files st p"
      using eff(3) by auto
    have f2: "\<forall>p c. files st p = Some c \<longrightarrow> files sta p = Some c"
      using eff(3) by (metis option.distinct(1))
    show ?thesis
    proof (cases ra)
      case (Inl e)
      then have "st1 = sta" using run False ga by (simp add: create_cache_file_def)
      then show ?thesis using d1 d2 f1 f2 by simp
    next
      case (Inr file_stat)
      let ?stb = "mkdir ?dir sta"
      have cb: "create_blank ?data (st_size file_stat) ?stb = (r, st1)"
        using run False ga Inr by (simp add: create_cache_file_def create_cache_dir_slash)
      note b = create_blank_effect [OF cb, unfolded state_simps]
      have none: "files st ?data = None" using False by (simp add: not_path_exists)
      have "dirs st1 = dirs ?stb" using b by simp
      then have dd: "dirs st \<subseteq> dirs st1 \<and> dirs st1 \<subseteq> insert ?dir (dirs st)"
        using d1 d2 by (auto simp: dirs_mkdir split: if_splits)
      have ff: "\<forall>p. p \<noteq> ?stat \<and> p \<noteq> ?data \<longrightarrow> files st1 p = files st p"
        using b f1 by simp
      have mono: "\<forall>p c. files st p = Some c \<longrightarrow> files st1 p = Some c"
      proof (intro allI impI)
        fix p c assume p: "files st p = Some c"
        then have "p \<noteq> ?data" using none by auto
        then have "files st1 p = files sta p" using b by simp
        then show "files st1 p = Some c" using f2 p by simp
      qed
      show ?thesis using dd ff mono by simp
    qed
  qed
  show "dirs st \<subseteq> dirs st1" using all by simp
  show "dirs st1 \<subseteq> insert ?dir (dirs st)" using all by simp
  show "\<forall>p. p \<noteq> ?stat \<and> p \<noteq> ?data \<longrightarrow> files st1 p = files st p" using all by simp
  show "\<forall>p c. files st p = Some c \<longrightarrow> files st1 p = Some c" using all by simp
qed

section \<open>Successful reads, and what the operations keep\<close>





lemma load_cached_blocks_cases:
  "load_cached_blocks st p = Inr cs \<Longrightarrow>
   files st p = Some (PickledRanges cs) \<or> (files st p = None \<and> p \<notin> dirs st \<and> cs = [])"
  by (auto simp: load_cached_blocks_def path_exists_def load_ranges_def open_existing_def
      Ranges_new_def split: if_splits option.splits cfile.splits)



text \<open>The coverage records stay well-formed.\<close>

lemma coverage_records_ok_empty: "coverage_records_ok empty_state"
  by (simp add: coverage_records_ok_def empty_state_def)

lemma coverage_records_ok_files:
  "coverage_records_ok st \<Longrightarrow>
   \<forall>p cs. files st' p = Some (PickledRanges cs) \<longrightarrow>
      files st p = Some (PickledRanges cs) \<or> coverage_ok cs \<Longrightarrow>
   coverage_records_ok st'"
  unfolding coverage_records_ok_def by blast

lemma Cacher_getattr_coverage_records_ok:
  assumes "coverage_records_ok st"
  shows "coverage_records_ok (snd (Cacher_getattr C W path st))"
proof -
  obtain r st1 where run: "Cacher_getattr C W path st = (r, st1)"
    by (cases "Cacher_getattr C W path st")
  have "files st p = Some (PickledRanges cs)" if "files st1 p = Some (PickledRanges cs)" for p cs
    using Cacher_getattr_effect(3) [OF run, rule_format, of p] that by auto
  then show ?thesis using assms run coverage_records_ok_files [of st st1] by simp
qed

lemma Cacher_readdir_effect:
  assumes run: "Cacher_readdir C W path offset st = (r, st1)"
  shows "files st1 p = files st p \<or>
           (files st p = None \<and> (\<exists>l. files st1 p = Some (PickledList l)))"
proof (cases path)
  case Nil
  then show ?thesis using run by (simp add: Cacher_readdir_def get_cache_dir_def)
next
  case (Cons c rest)
  show ?thesis
  proof (cases "c = CHR ''/''")
    case False
    then show ?thesis using run Cons by (simp add: Cacher_readdir_def get_cache_dir_def)
  next
    case True
    let ?key = "path_join (path_join (cachedir C) rest) ''cache.list''"
    show ?thesis
    proof (cases "path_exists st ?key")
      case True
      then show ?thesis
        using run Cons \<open>c = CHR ''/''\<close> by (simp add: Cacher_readdir_def get_cache_dir_slash)
    next
      case False
      let ?st1 = "record_call (Ureaddir path offset) st"
      show ?thesis
      proof (cases "UnderlyingFs_readdir (underlying_fs C) (tree_now W st) path offset")
        case (Inl e)
        then show ?thesis
          using run Cons \<open>c = CHR ''/''\<close> False
          by (auto simp: Cacher_readdir_def get_cache_dir_slash Let_def state_simps)
      next
        case (Inr result)
        let ?st2 = "mkdir (path_join (cachedir C) rest) ?st1"
        obtain r3 st3 where put: "put_file ?key (PickledList result) ?st2 = (r3, st3)"
          by (cases "put_file ?key (PickledList result) ?st2")
        have "st1 = st3"
          using run Cons \<open>c = CHR ''/''\<close> False Inr put
          by (cases r3)
             (auto simp: Cacher_readdir_def get_cache_dir_slash Let_def create_cache_dir_slash)
        moreover have "files st ?key = None" using False by (simp add: not_path_exists)
        ultimately show ?thesis
          using put_file_cases [OF put] by (auto simp: state_simps split: if_splits)
      qed
    qed
  qed
qed

lemma Cacher_readdir_coverage_records_ok:
  assumes "coverage_records_ok st"
  shows "coverage_records_ok (snd (Cacher_readdir C W path offset st))"
proof -
  obtain r st1 where run: "Cacher_readdir C W path offset st = (r, st1)"
    by (cases "Cacher_readdir C W path offset st")
  have "files st p = Some (PickledRanges cs)" if "files st1 p = Some (PickledRanges cs)" for p cs
    using Cacher_readdir_effect [OF run, of p] that by auto
  then show ?thesis using assms run coverage_records_ok_files [of st st1] by simp
qed

lemma create_cache_file_ranges:
  assumes run: "create_cache_file C W path data st = (r, st1)"
    and rec: "files st1 p = Some (PickledRanges cs)"
  shows "files st p = Some (PickledRanges cs)"
proof (cases "path_exists st data")
  case True
  then show ?thesis using run rec by (auto simp: create_cache_file_def)
next
  case False
  obtain ra sta where ga: "Cacher_getattr C W path st = (ra, sta)"
    by (cases "Cacher_getattr C W path st")
  have orig: "files st q = Some (PickledRanges cs)" if "files sta q = Some (PickledRanges cs)" for q
    using Cacher_getattr_effect(3) [OF ga, rule_format, of q] that by auto
  show ?thesis
  proof (cases ra)
    case (Inl e)
    then have "st1 = sta" using run False ga by (simp add: create_cache_file_def)
    then show ?thesis using orig rec by simp
  next
    case (Inr file_stat)
    obtain rb stb where cd: "create_cache_dir C path sta = (rb, stb)"
      by (cases "create_cache_dir C path sta")
    have fb: "files stb = files sta"
      using cd by (auto simp: create_cache_dir_def state_simps split: sum.splits)
    show ?thesis
    proof (cases rb)
      case (Inl e)
      then have "st1 = stb" using run False ga Inr cd by (simp add: create_cache_file_def)
      then show ?thesis using orig rec fb by simp
    next
      case ok: (Inr u)
      have cb: "create_blank data (st_size file_stat) stb = (r, st1)"
        using run False ga Inr cd ok by (simp add: create_cache_file_def)
      have "files sta p = Some (PickledRanges cs)"
        using create_blank_effect [OF cb] rec fb by (cases "p = data") auto
      then show ?thesis by (rule orig)
    qed
  qed
qed

lemma Cacher_read_steps:
  assumes run: "Cacher_read C W path sz offset st = (r, st')"
  shows "st' = st \<or>
    (\<exists>rest cb ra sta.
       path = CHR ''/'' # rest \<and>
       load_cached_blocks st (path_join (path_join (cachedir C) rest) ''cache.data.range'') = Inr cb \<and>
       create_cache_file C W path (path_join (path_join (cachedir C) rest) ''cache.data'') st = (ra, sta) \<and>
       (st' = sta \<or>
        (\<exists>rb stb.
           fetch_blocks C W path (path_join (path_join (cachedir C) rest) ''cache.data'')
             (get_uncovered_portions cb (Range offset (offset + sz))) cb sta = (rb, stb) \<and>
           (st' = stb \<or>
            (\<exists>cb1. rb = Inr cb1 \<and>
               st' = stb\<lparr>files := (files stb)
                 (path_join (path_join (cachedir C) rest) ''cache.data.range'' \<mapsto> PickledRanges cb1)\<rparr>)))))"
proof (cases path)
  case Nil
  then show ?thesis using run by (simp add: Cacher_read_def get_cache_dir_def)
next
  case (Cons c rest)
  show ?thesis
  proof (cases "c = CHR ''/''")
    case False
    then show ?thesis using run Cons by (simp add: Cacher_read_def get_cache_dir_def)
  next
    case True
    then have path: "path = CHR ''/'' # rest" using Cons by simp
    let ?data = "path_join (path_join (cachedir C) rest) ''cache.data''"
    let ?rng = "path_join (path_join (cachedir C) rest) ''cache.data.range''"
    show ?thesis
    proof (cases "load_cached_blocks st ?rng")
      case (Inl e)
      then show ?thesis using run by (simp add: Cacher_read_def path get_cache_dir_slash)
    next
      case (Inr cb)
      let ?blocks = "get_uncovered_portions cb (Range offset (offset + sz))"
      obtain ra sta where a: "create_cache_file C W path ?data st = (ra, sta)"
        by (cases "create_cache_file C W path ?data st")
      have later: "st' = sta \<or>
        (\<exists>rb stb. fetch_blocks C W path ?data ?blocks cb sta = (rb, stb) \<and>
           (st' = stb \<or>
            (\<exists>cb1. rb = Inr cb1 \<and>
               st' = stb\<lparr>files := (files stb)(?rng \<mapsto> PickledRanges cb1)\<rparr>)))"
      proof (cases ra)
        case (Inl e)
        then show ?thesis
          using run Inr a by (simp add: Cacher_read_def path get_cache_dir_slash)
      next
        case created: (Inr u)
        obtain rd std where d: "fetch_and_dump C W path ?data ?rng ?blocks cb sta = (rd, std)"
          by (cases "fetch_and_dump C W path ?data ?rng ?blocks cb sta")
        have "st' = std"
          using run Inr a created d
          by (cases rd)
             (auto simp: Cacher_read_def path get_cache_dir_slash read_cache_file_def
              split: sum.splits cfile.splits)
        moreover have "std = sta \<or>
          (\<exists>rb stb. fetch_blocks C W path ?data ?blocks cb sta = (rb, stb) \<and>
             (std = stb \<or>
              (\<exists>cb1. rb = Inr cb1 \<and>
                 std = stb\<lparr>files := (files stb)(?rng \<mapsto> PickledRanges cb1)\<rparr>)))"
        proof (cases "?blocks = []")
          case True
          then show ?thesis using d by (simp add: fetch_and_dump_def)
        next
          case False
          show ?thesis
          proof (cases "open_existing sta ?data")
            case (Inl e)
            then show ?thesis using d False by (simp add: fetch_and_dump_def)
          next
            case opened: (Inr f)
            obtain rb stb where loop: "fetch_blocks C W path ?data ?blocks cb sta = (rb, stb)"
              by (cases "fetch_blocks C W path ?data ?blocks cb sta")
            show ?thesis
            proof (cases rb)
              case (Inl e)
              then have "std = stb" using d False opened loop by (simp add: fetch_and_dump_def)
              then show ?thesis using loop by simp
            next
              case fetched: (Inr cb1)
              then have put: "put_file ?rng (PickledRanges cb1) stb = (rd, std)"
                using d False opened loop by (simp add: fetch_and_dump_def)
              show ?thesis using put_file_cases [OF put] loop fetched by auto
            qed
          qed
        qed
        ultimately show ?thesis by simp
      qed
      show ?thesis using path Inr a later by blast
    qed
  qed
qed

lemma Cacher_read_keeps_records:
  assumes run: "Cacher_read C W path sz offset st = (r, st')"
    and rec: "files st p = Some c"
    and kind: "\<forall>bs. c \<noteq> Data bs" "\<forall>cs. c \<noteq> PickledRanges cs"
  shows "files st' p = Some c"
proof -
  from Cacher_read_steps [OF run] consider "st' = st"
    | rest cb ra sta where "path = CHR ''/'' # rest"
        "load_cached_blocks st (path_join (path_join (cachedir C) rest) ''cache.data.range'') = Inr cb"
        "create_cache_file C W path (path_join (path_join (cachedir C) rest) ''cache.data'') st = (ra, sta)"
        "st' = sta \<or>
        (\<exists>rb stb.
           fetch_blocks C W path (path_join (path_join (cachedir C) rest) ''cache.data'')
             (get_uncovered_portions cb (Range offset (offset + sz))) cb sta = (rb, stb) \<and>
           (st' = stb \<or>
            (\<exists>cb1. rb = Inr cb1 \<and>
               st' = stb\<lparr>files := (files stb)
                 (path_join (path_join (cachedir C) rest) ''cache.data.range'' \<mapsto> PickledRanges cb1)\<rparr>)))"
    by blast
  then show ?thesis
  proof cases
    case 1
    then show ?thesis using rec by simp
  next
    case (2 rest cb ra sta)
    let ?data = "path_join (path_join (cachedir C) rest) ''cache.data''"
    let ?rng = "path_join (path_join (cachedir C) rest) ''cache.data.range''"
    have a: "files sta p = Some c"
      using create_cache_file_effect(4) [OF 2(3) [unfolded 2(1)]] rec by simp
    have not_rng: "p \<noteq> ?rng"
      using load_cached_blocks_cases [OF 2(2)] rec kind by auto
    from 2(4) show ?thesis
    proof
      assume "st' = sta" then show ?thesis using a by simp
    next
      assume "\<exists>rb stb.
           fetch_blocks C W path ?data
             (get_uncovered_portions cb (Range offset (offset + sz))) cb sta = (rb, stb) \<and>
           (st' = stb \<or>
            (\<exists>cb1. rb = Inr cb1 \<and>
               st' = stb\<lparr>files := (files stb)(?rng \<mapsto> PickledRanges cb1)\<rparr>))"
      then obtain rb stb where
        loop: "fetch_blocks C W path ?data
             (get_uncovered_portions cb (Range offset (offset + sz))) cb sta = (rb, stb)"
        and last: "st' = stb \<or>
            (\<exists>cb1. rb = Inr cb1 \<and>
               st' = stb\<lparr>files := (files stb)(?rng \<mapsto> PickledRanges cb1)\<rparr>)"
        by blast
      have b: "files stb p = Some c"
        using fetch_blocks_effect [OF loop] a kind(1) by (cases "p = ?data") auto
      from last show ?thesis using b not_rng by auto
    qed
  qed
qed

lemma Cacher_read_coverage_records_ok:
  assumes inv: "coverage_records_ok st"
  shows "coverage_records_ok (snd (Cacher_read C W path sz offset st))"
proof -
  obtain r st' where run: "Cacher_read C W path sz offset st = (r, st')"
    by (cases "Cacher_read C W path sz offset st")
  from Cacher_read_steps [OF run] consider "st' = st"
    | rest cb ra sta where "path = CHR ''/'' # rest"
        "load_cached_blocks st (path_join (path_join (cachedir C) rest) ''cache.data.range'') = Inr cb"
        "create_cache_file C W path (path_join (path_join (cachedir C) rest) ''cache.data'') st = (ra, sta)"
        "st' = sta \<or>
        (\<exists>rb stb.
           fetch_blocks C W path (path_join (path_join (cachedir C) rest) ''cache.data'')
             (get_uncovered_portions cb (Range offset (offset + sz))) cb sta = (rb, stb) \<and>
           (st' = stb \<or>
            (\<exists>cb1. rb = Inr cb1 \<and>
               st' = stb\<lparr>files := (files stb)
                 (path_join (path_join (cachedir C) rest) ''cache.data.range'' \<mapsto> PickledRanges cb1)\<rparr>)))"
    by blast
  then have "coverage_records_ok st'"
  proof cases
    case 1
    then show ?thesis using inv by simp
  next
    case (2 rest cb ra sta)
    let ?data = "path_join (path_join (cachedir C) rest) ''cache.data''"
    let ?rng = "path_join (path_join (cachedir C) rest) ''cache.data.range''"
    have cb_ok: "coverage_ok cb"
      using load_cached_blocks_cases [OF 2(2)] inv by (auto simp: coverage_records_ok_def)
    have a: "coverage_records_ok sta"
      using create_cache_file_ranges [OF 2(3)] inv by (auto simp: coverage_records_ok_def)
    from 2(4) show ?thesis
    proof
      assume "st' = sta" then show ?thesis using a by simp
    next
      assume "\<exists>rb stb.
           fetch_blocks C W path ?data
             (get_uncovered_portions cb (Range offset (offset + sz))) cb sta = (rb, stb) \<and>
           (st' = stb \<or>
            (\<exists>cb1. rb = Inr cb1 \<and>
               st' = stb\<lparr>files := (files stb)(?rng \<mapsto> PickledRanges cb1)\<rparr>))"
      then obtain rb stb where
        loop: "fetch_blocks C W path ?data
             (get_uncovered_portions cb (Range offset (offset + sz))) cb sta = (rb, stb)"
        and last: "st' = stb \<or>
            (\<exists>cb1. rb = Inr cb1 \<and>
               st' = stb\<lparr>files := (files stb)(?rng \<mapsto> PickledRanges cb1)\<rparr>)"
        by blast
      have "files sta q = Some (PickledRanges cs)" if "files stb q = Some (PickledRanges cs)" for q cs
        using fetch_blocks_effect [OF loop] that by (cases "q = ?data") auto
      then have b: "coverage_records_ok stb"
        using a by (auto simp: coverage_records_ok_def)
      from last show ?thesis
      proof
        assume "st' = stb" then show ?thesis using b by simp
      next
        assume "\<exists>cb1. rb = Inr cb1 \<and>
               st' = stb\<lparr>files := (files stb)(?rng \<mapsto> PickledRanges cb1)\<rparr>"
        then obtain cb1 where rb: "rb = Inr cb1"
          and st': "st' = stb\<lparr>files := (files stb)(?rng \<mapsto> PickledRanges cb1)\<rparr>"
          by blast
        have "cb1 = foldl add_range cb (get_uncovered_portions cb (Range offset (offset + sz)))"
          using fetch_blocks_result loop rb by blast
        then have "coverage_ok cb1" using foldl_add_range [OF cb_ok] by simp
        then show ?thesis using b st' by (auto simp: coverage_records_ok_def)
      qed
    qed
  qed
  then show ?thesis using run by simp
qed

lemma Cacher_getattr_keeps_files:
  "Cacher_getattr C W path st = (r, st1) \<Longrightarrow> files st p = Some c \<Longrightarrow> files st1 p = Some c"
  using Cacher_getattr_effect(3) [of C W path st r st1, rule_format, of p] by auto

lemma Cacher_readdir_keeps_files:
  "Cacher_readdir C W path offset st = (r, st1) \<Longrightarrow> files st p = Some c \<Longrightarrow> files st1 p = Some c"
  using Cacher_readdir_effect [of C W path offset st r st1 p] by auto

lemma serve_keeps_records:
  assumes rec: "files st p = Some c"
    and kind: "\<forall>bs. c \<noteq> Data bs" "\<forall>cs. c \<noteq> PickledRanges cs"
  shows "files (serve C W st req) p = Some c"
proof (cases req)
  case (Getattr path)
  obtain r st1 where run: "Cacher_getattr C W path st = (r, st1)"
    by (cases "Cacher_getattr C W path st")
  show ?thesis
    using Cacher_getattr_keeps_files [OF run rec] run Getattr
    by (simp add: PersistentCacheFs_getattr_def)
next
  case (Readdir path offset)
  obtain r st1 where run: "Cacher_readdir C W path offset st = (r, st1)"
    by (cases "Cacher_readdir C W path offset st")
  show ?thesis
    using Cacher_readdir_keeps_files [OF run rec] run Readdir
    by (simp add: PersistentCacheFs_readdir_def)
next
  case (Read path sz offset)
  obtain r st1 where run: "Cacher_read C W path sz offset st = (r, st1)"
    by (cases "Cacher_read C W path sz offset st")
  show ?thesis
    using Cacher_read_keeps_records [OF run rec kind] run Read
    by (simp add: PersistentCacheFs_read_def)
qed

lemma serve_all_keeps_records:
  assumes kind: "\<forall>bs. c \<noteq> Data bs" "\<forall>cs. c \<noteq> PickledRanges cs"
  shows "files st p = Some c \<Longrightarrow> files (serve_all C W reqs st) p = Some c"
proof (induction reqs arbitrary: st)
  case Nil
  then show ?case by (simp add: serve_all_def)
next
  case (Cons req reqs)
  have "files (serve C W st req) p = Some c"
    using Cons.prems kind by (rule serve_keeps_records)
  then have "files (serve_all C W reqs (serve C W st req)) p = Some c"
    by (rule Cons.IH)
  then show ?case by (simp add: serve_all_def)
qed

lemma Cacher_readdir_stored:
  assumes run: "Cacher_readdir C W path offset st = (Inr names, st1)"
  shows "\<exists>rest. path = CHR ''/'' # rest \<and>
           files st1 (path_join (path_join (cachedir C) rest) ''cache.list'') = Some (PickledList names)"
proof -
  from run obtain rest where path: "path = CHR ''/'' # rest"
    by (cases path) (auto simp: Cacher_readdir_def get_cache_dir_def split: if_splits)
  let ?key = "path_join (path_join (cachedir C) rest) ''cache.list''"
  have "files st1 ?key = Some (PickledList names)"
  proof (cases "path_exists st ?key")
    case True
    then have "Cacher_readdir C W path offset st = (load_list st ?key, st)"
      by (simp add: Cacher_readdir_def path get_cache_dir_slash)
    with run have "load_list st ?key = Inr names" and "st1 = st" by auto
    then show ?thesis
      by (auto simp: load_list_def open_existing_def
          split: option.splits cfile.splits if_splits sum.splits)
  next
    case False
    let ?sta = "record_call (Ureaddir path offset) st"
    from run False obtain result where
      u: "UnderlyingFs_readdir (underlying_fs C) (tree_now W st) path offset = Inr result"
      by (cases "UnderlyingFs_readdir (underlying_fs C) (tree_now W st) path offset")
         (auto simp: Cacher_readdir_def path get_cache_dir_slash Let_def)
    let ?stb = "mkdir (path_join (cachedir C) rest) ?sta"
    obtain r3 st3 where put: "put_file ?key (PickledList result) ?stb = (r3, st3)"
      by (cases "put_file ?key (PickledList result) ?stb")
    have "r3 = Inr () \<and> st1 = st3 \<and> names = result"
      using run False u put
      by (cases r3)
         (auto simp: Cacher_readdir_def path get_cache_dir_slash Let_def create_cache_dir_slash)
    then show ?thesis using put_file_cases [OF put] by auto
  qed
  then show ?thesis using path by blast
qed

lemma Cacher_readdir_from_cache:
  "files st (path_join (path_join (cachedir C) rest) ''cache.list'') = Some (PickledList names) \<Longrightarrow>
   Cacher_readdir C W (CHR ''/'' # rest) offset st = (Inr names, st)"
  by (simp add: Cacher_readdir_def get_cache_dir_slash path_exists_def load_list_def
      open_existing_def)

lemma Cacher_getattr_stored:
  assumes run: "Cacher_getattr C W path st = (Inr s, st1)"
  shows "\<exists>rest. path = CHR ''/'' # rest \<and>
           files st1 (path_join (path_join (cachedir C) rest) ''cache.stat'') = Some (PickledStat s)"
proof -
  from run obtain rest where path: "path = CHR ''/'' # rest"
    by (cases path) (auto simp: Cacher_getattr_def get_cache_dir_def split: if_splits)
  let ?key = "path_join (path_join (cachedir C) rest) ''cache.stat''"
  have "files st1 ?key = Some (PickledStat s)"
  proof (cases "path_exists st ?key")
    case True
    then have "Cacher_getattr C W path st = (load_stat st ?key, st)"
      by (simp add: Cacher_getattr_def path get_cache_dir_slash)
    with run have "load_stat st ?key = Inr s" and "st1 = st" by auto
    then show ?thesis
      by (auto simp: load_stat_def open_existing_def
          split: option.splits cfile.splits if_splits sum.splits)
  next
    case False
    let ?sta = "record_call (Ugetattr path) st"
    from run False obtain result where
      u: "UnderlyingFs_getattr (underlying_fs C) (tree_now W st) path = Inr result"
      by (cases "UnderlyingFs_getattr (underlying_fs C) (tree_now W st) path")
         (auto simp: Cacher_getattr_def path get_cache_dir_slash Let_def)
    let ?stb = "mkdir (path_join (cachedir C) rest) ?sta"
    obtain r3 st3 where put: "put_file ?key (PickledStat result) ?stb = (r3, st3)"
      by (cases "put_file ?key (PickledStat result) ?stb")
    have "r3 = Inr () \<and> st1 = st3 \<and> s = result"
      using run False u put
      by (cases r3)
         (auto simp: Cacher_getattr_def path get_cache_dir_slash Let_def create_cache_dir_slash)
    then show ?thesis using put_file_cases [OF put] by auto
  qed
  then show ?thesis using path by blast
qed

lemma Cacher_getattr_from_cache:
  "files st (path_join (path_join (cachedir C) rest) ''cache.stat'') = Some (PickledStat s) \<Longrightarrow>
   Cacher_getattr C W (CHR ''/'' # rest) st = (Inr s, st)"
  by (simp add: Cacher_getattr_def get_cache_dir_slash path_exists_def load_stat_def
      open_existing_def)

lemma serve_coverage_records_ok:
  "coverage_records_ok st \<Longrightarrow> coverage_records_ok (serve C W st req)"
  by (cases req)
     (simp_all add: PersistentCacheFs_getattr_def PersistentCacheFs_readdir_def
        PersistentCacheFs_read_def Cacher_getattr_coverage_records_ok
        Cacher_readdir_coverage_records_ok Cacher_read_coverage_records_ok)

lemma serve_all_coverage_records_ok:
  "coverage_records_ok st \<Longrightarrow> coverage_records_ok (serve_all C W reqs st)"
proof (induction reqs arbitrary: st)
  case Nil
  then show ?case by (simp add: serve_all_def)
next
  case (Cons req reqs)
  have "coverage_records_ok (serve_all C W reqs (serve C W st req))"
    using Cons.prems by (intro Cons.IH serve_coverage_records_ok)
  then show ?case by (simp add: serve_all_def)
qed

lemma coverage_records_ok_reachable:
  "coverage_records_ok (serve_all C W reqs (snd (Cacher_init cdir ufs empty_state)))"
proof -
  have "files (snd (Cacher_init cdir ufs empty_state)) = (\<lambda>p. None)"
    by (simp add: Cacher_init_def empty_state_def mkdir_def)
  then have "coverage_records_ok (snd (Cacher_init cdir ufs empty_state))"
    by (simp add: coverage_records_ok_def)
  then show ?thesis by (rule serve_all_coverage_records_ok)
qed

section \<open>Claim C2: the tracker keeps Coverage merged and reports exactly the gaps\<close>

text \<open>
  Claim C2. For every sequence \<open>added\<close> of \<open>add_range\<close> calls on an empty tracker, the
  resulting Coverage has no two intervals that overlap or touch (every earlier interval
  ends strictly before every later one starts), and the bytes it covers are exactly the
  bytes of the added intervals. For every query \<open>q\<close>, \<open>get_uncovered_portions\<close> returns
  intervals that together hold exactly the bytes of \<open>q\<close> missing from Coverage, each with
  at least one byte, in ascending order and never adjacent, each maximal (the byte before
  its start and the byte at its end are not missing bytes of \<open>q\<close>), as few as any list of
  intervals with the same bytes can be; the result is empty when \<open>q\<close> is fully covered and
  when \<open>q\<close> has length zero.
\<close>

theorem ranges_tracker_correct:
  "coverage_ok (foldl add_range Ranges_new added) \<and>
   (\<forall>i j. i < j \<and> j < length (foldl add_range Ranges_new added) \<longrightarrow>
      stop (foldl add_range Ranges_new added ! i) < start (foldl add_range Ranges_new added ! j)) \<and>
   covered (foldl add_range Ranges_new added) = covered added \<and>
   (let cov = foldl add_range Ranges_new added;
        gaps = get_uncovered_portions cov q in
      covered gaps = range_set q - covered cov \<and>
      (\<forall>g \<in> set gaps. start g < stop g) \<and>
      (\<forall>i j. i < j \<and> j < length gaps \<longrightarrow> stop (gaps ! i) < start (gaps ! j)) \<and>
      (\<forall>g \<in> set gaps. start g - 1 \<notin> range_set q - covered cov \<and>
                         stop g \<notin> range_set q - covered cov) \<and>
      (\<forall>hs. covered hs = range_set q - covered cov \<longrightarrow> length gaps \<le> length hs) \<and>
      (range_set q \<subseteq> covered cov \<longrightarrow> gaps = []) \<and>
      (start q = stop q \<longrightarrow> gaps = []))"
proof -
  let ?cov = "foldl add_range Ranges_new added"
  let ?gaps = "get_uncovered_portions ?cov q"
  have init: "coverage_ok Ranges_new" by (simp add: Ranges_new_def)
  have ok: "coverage_ok ?cov" and un: "covered ?cov = covered added"
    using foldl_add_range [OF init, of added] by (simp_all add: Ranges_new_def covered_Nil)
  have sep: "\<forall>i j. i < j \<and> j < length ?cov \<longrightarrow> stop (?cov ! i) < start (?cov ! j)"
    using coverage_ok_nth [OF ok] by blast
  have gok: "coverage_ok ?gaps"
    unfolding get_uncovered_portions_def using ok by (rule uncovered_ok)
  have gun: "covered ?gaps = range_set q - covered ?cov"
    unfolding get_uncovered_portions_def range_set_def using ok by (rule uncovered_covered)
  have g1: "\<forall>g \<in> set ?gaps. start g < stop g"
    using coverage_ok_nonempty [OF gok] by blast
  have g2: "\<forall>i j. i < j \<and> j < length ?gaps \<longrightarrow> stop (?gaps ! i) < start (?gaps ! j)"
    using coverage_ok_nth [OF gok] by blast
  have g3: "\<forall>g \<in> set ?gaps. start g - 1 \<notin> range_set q - covered ?cov \<and>
                         stop g \<notin> range_set q - covered ?cov"
    using coverage_ok_maximal [OF gok] gun by simp
  have g4: "\<forall>hs. covered hs = range_set q - covered ?cov \<longrightarrow> length ?gaps \<le> length hs"
    using coverage_ok_minimal [OF gok] gun by simp
  have g5: "range_set q \<subseteq> covered ?cov \<longrightarrow> ?gaps = []"
    unfolding get_uncovered_portions_def range_set_def
    using uncovered_Nil_iff [OF ok] by simp
  have g6: "start q = stop q \<longrightarrow> ?gaps = []"
    unfolding get_uncovered_portions_def
  proof
    assume e: "start q = stop q"
    have "{start q ..< stop q} \<subseteq> covered ?cov" using e by simp
    then show "uncovered (start q) (stop q) ?cov = []"
      using uncovered_Nil_iff [OF ok, of "start q" "stop q"] by blast
  qed
  show ?thesis
    unfolding Let_def using ok sep un gun g1 g2 g3 g4 g5 g6 by blast
qed

theorem ranges_tracker_correct_witness:
  "foldl add_range Ranges_new [Range 2 5, Range 7 9, Range 0 2] = [Range 0 5, Range 7 9] \<and>
   get_uncovered_portions [Range 0 5, Range 7 9] (Range 0 10) = [Range 5 7, Range 9 10] \<and>
   stop (Range 5 7) < start (Range 9 10) \<and>
   range_set (Range 3 5) \<subseteq> covered [Range 0 5, Range 7 9] \<and>
   get_uncovered_portions [Range 0 5, Range 7 9] (Range 3 5) = [] \<and>
   start (Range 4 4) = stop (Range 4 4) \<and>
   get_uncovered_portions [Range 0 5, Range 7 9] (Range 4 4) = []"
proof -
  let ?added = "[Range 2 5, Range 7 9, Range 0 2]"
  have cov: "foldl add_range Ranges_new ?added = [Range 0 5, Range 7 9]"
    by (simp add: Ranges_new_def add_range_def)
  have sub: "range_set (Range 3 5) \<subseteq> covered [Range 0 5, Range 7 9]"
    by (auto simp: range_set_def covered_def)
  have gaps: "get_uncovered_portions [Range 0 5, Range 7 9] (Range 0 10) = [Range 5 7, Range 9 10]"
    by (simp add: get_uncovered_portions_def)
  have a: "(0::nat) < 1 \<and> 1 < length [Range 5 7, Range 9 10]" by simp
  from ranges_tracker_correct [of ?added "Range 0 10"]
  have sep: "stop ([Range 5 7, Range 9 10] ! 0) < start ([Range 5 7, Range 9 10] ! 1)"
    unfolding cov gaps Let_def using a by blast
  from ranges_tracker_correct [of ?added "Range 3 5"] sub
  have full: "get_uncovered_portions [Range 0 5, Range 7 9] (Range 3 5) = []"
    unfolding cov Let_def by blast
  from ranges_tracker_correct [of ?added "Range 4 4"]
  have zero: "get_uncovered_portions [Range 0 5, Range 7 9] (Range 4 4) = []"
    unfolding cov Let_def by simp
  show ?thesis using cov gaps sep sub full zero by simp
qed

section \<open>Claim C3: the scenario with \<open>/a.txt\<close>\<close>

text \<open>
  Claim C3. From the empty cache, with \<open>/a.txt\<close> of size 10 and content \<open>0123456789\<close> in the
  target directory: reading 3 bytes at offset 2 returns \<open>234\<close> and leaves the coverage
  record \<open>[2,5)\<close>; reading 5 bytes at offset 0 after that returns \<open>01234\<close>, makes exactly
  one more call to the underlying file system, the read of 2 bytes at offset 0, and
  leaves the coverage record \<open>[0,5)\<close>.
\<close>

theorem scenario_a_txt:
  "get_cache_dir a_cacher ''/a.txt'' (Some ''cache.data.range'') = Inr ''/cache/a.txt/cache.data.range'' \<and>
   (case Cacher_read a_cacher a_world ''/a.txt'' 3 2 a_state of (r1, st1) \<Rightarrow>
      r1 = Inr ''234'' \<and>
      files st1 ''/cache/a.txt/cache.data.range'' = Some (PickledRanges [Range 2 5]) \<and>
      (case Cacher_read a_cacher a_world ''/a.txt'' 5 0 st1 of (r2, st2) \<Rightarrow>
         r2 = Inr ''01234'' \<and>
         calls st2 = calls st1 @ [Uread ''/a.txt'' 2 0] \<and>
         files st2 ''/cache/a.txt/cache.data.range'' = Some (PickledRanges [Range 0 5])))"
  by code_simp

section \<open>Claim C4: what is marked as cached after a short read\<close>

text \<open>
  Claim C4 says that no byte is marked covered without having been fetched, also when
  the underlying read returns fewer bytes than requested. \<open>Cacher.read\<close> adds the whole
  requested block to \<open>cached_blocks\<close>, whatever the length of \<open>block_data\<close>. Reading 20
  bytes at offset 0 of the 10-byte file \<open>/a.txt\<close> fetches 10 bytes and records \<open>[0,20)\<close> as
  cached. When the file has been cut down to 5 bytes after its attributes were cached,
  reading 10 bytes at offset 0 fetches 5 bytes, records \<open>[0,10)\<close> as cached, and returns the
  5 bytes followed by 5 zero bytes of the blank data file, which the underlying file
  system never returned.
\<close>

theorem short_read_marked_covered:
  "UnderlyingFs_read (underlying_fs a_cacher) a_tree ''/a.txt'' 20 0 = Inr ''0123456789'' \<and>
   (case Cacher_read a_cacher a_world ''/a.txt'' 20 0 a_state of (r, st) \<Rightarrow>
      r = Inr ''0123456789'' \<and>
      calls st = [Ugetattr ''/a.txt'', Uread ''/a.txt'' 20 0] \<and>
      files st ''/cache/a.txt/cache.data.range'' = Some (PickledRanges [Range 0 20])) \<and>
   UnderlyingFs_read (underlying_fs a_cacher) cut_tree ''/a.txt'' 10 0 = Inr ''01234'' \<and>
   (case Cacher_read a_cacher cut_world ''/a.txt'' 10 0 a_state of (r, st) \<Rightarrow>
      r = Inr (''01234'' @ replicate 5 (CHR 0x00)) \<and>
      calls st = [Ugetattr ''/a.txt'', Uread ''/a.txt'' 10 0] \<and>
      files st ''/cache/a.txt/cache.data.range'' = Some (PickledRanges [Range 0 10]))"
  by code_simp

section \<open>Claim C9: only read-only opens are accepted\<close>

text \<open>
  Claim C9. For every path and all flags, \<open>open\<close> returns \<open>-EACCES\<close> when the access mode
  of the flags is \<open>O_WRONLY\<close> or \<open>O_RDWR\<close>, and 0 when it is \<open>O_RDONLY\<close>.
\<close>

theorem open_read_only:
  "(and flags (or (or O_RDONLY O_WRONLY) O_RDWR) = O_WRONLY \<longrightarrow>
      PersistentCacheFs_open path flags = - EACCES) \<and>
   (and flags (or (or O_RDONLY O_WRONLY) O_RDWR) = O_RDWR \<longrightarrow>
      PersistentCacheFs_open path flags = - EACCES) \<and>
   (and flags (or (or O_RDONLY O_WRONLY) O_RDWR) = O_RDONLY \<longrightarrow>
      PersistentCacheFs_open path flags = 0)"
  by (simp add: PersistentCacheFs_open_def)

theorem open_read_only_witness:
  "PersistentCacheFs_open ''/a.txt'' O_WRONLY = - 13 \<and>
   PersistentCacheFs_open ''/a.txt'' O_RDWR = - 13 \<and>
   PersistentCacheFs_open ''/a.txt'' O_RDONLY = 0 \<and>
   PersistentCacheFs_open ''/a.txt'' 1025 = - 13"
  using open_read_only [of 1 "''/a.txt''"] open_read_only [of 2 "''/a.txt''"]
    open_read_only [of 0 "''/a.txt''"] open_read_only [of 1025 "''/a.txt''"]
  by simp

section \<open>Claim C7: attributes of a path that the target directory does not have\<close>

text \<open>
  Claim C7. For a path (with its leading slash) that has no attributes record in the
  cache and is absent from the target directory, that is, the system answers \<open>ENOENT\<close>, no
  such file or directory, for its name there, \<open>getattr\<close> fails with \<open>OSError\<close> of \<open>ENOENT\<close>;
  the one call to the underlying file system is recorded, and the files and directories
  of the cache are those from before the call: no record and no cache directory is
  created for the path.
\<close>

theorem getattr_missing:
  assumes path: "path = CHR ''/'' # rest"
    and fresh: "\<not> path_exists st (path_join (path_join (cachedir C) rest) ''cache.stat'')"
    and absent: "tree_now W st (path_join (real_path (underlying_fs C)) rest) = Inl ENOENT"
  shows "Cacher_getattr C W path st = (Inl (OSError ENOENT), record_call (Ugetattr path) st) \<and>
         files (record_call (Ugetattr path) st) = files st \<and>
         dirs (record_call (Ugetattr path) st) = dirs st"
  using fresh absent
  by (simp add: path Cacher_getattr_def get_cache_dir_slash UnderlyingFs_getattr_def
      get_real_path_slash os_stat_def state_simps)

theorem getattr_missing_witness:
  "Cacher_getattr a_cacher a_world ''/missing'' a_state =
     (Inl (OSError ENOENT), record_call (Ugetattr ''/missing'') a_state) \<and>
   files (record_call (Ugetattr ''/missing'') a_state) = files a_state \<and>
   dirs (record_call (Ugetattr ''/missing'') a_state) = dirs a_state"
proof -
  have h1: "\<not> path_exists a_state
      (path_join (path_join (cachedir a_cacher) ''missing'') ''cache.stat'')"
    by code_simp
  have h2: "tree_now a_world a_state
      (path_join (real_path (underlying_fs a_cacher)) ''missing'') = Inl ENOENT"
    by code_simp
  show ?thesis using getattr_missing [OF refl h1 h2] .
qed

section \<open>Claim C10: the first read of an empty file\<close>

text \<open>
  Claim C10. When the data file of a path does not exist yet and the attributes of the
  path, cached or fetched, give size 0, every \<open>read\<close> of the path, whatever size and
  offset it asks for, fails with \<open>IOError\<close> of \<open>EINVAL\<close>, raised by the seek to offset \<open>-1\<close>
  while the blank data file is created; it returns no bytes, and it leaves the data file
  behind, empty.
\<close>

theorem read_empty_file_fails:
  assumes path: "path = CHR ''/'' # rest"
    and first: "\<not> path_exists st (path_join (path_join (cachedir C) rest) ''cache.data'')"
    and cov: "load_cached_blocks st (path_join (path_join (cachedir C) rest) ''cache.data.range'')
                = Inr cached_blocks"
    and attr: "Cacher_getattr C W path st = (Inr file_stat, st1)"
    and zero: "st_size file_stat = 0"
  shows "fst (Cacher_read C W path sz offset st) = Inl (IOError EINVAL) \<and>
         files (snd (Cacher_read C W path sz offset st))
           (path_join (path_join (cachedir C) rest) ''cache.data'') = Some (Data [])"
proof -
  let ?dir = "path_join (cachedir C) rest"
  let ?data = "path_join ?dir ''cache.data''"
  let ?st2 = "mkdir ?dir st1"
  have not_dir: "?data \<notin> dirs st" using first by (simp add: not_path_exists)
  have "dirs st1 \<subseteq> insert ?dir (dirs st)"
    using Cacher_getattr_effect(2) [OF attr] path by simp
  moreover have "?data \<noteq> ?dir" by (rule path_join_neq_dir) simp_all
  ultimately have "?data \<notin> dirs ?st2"
    using not_dir by (auto simp: dirs_mkdir)
  then have blank: "create_blank ?data (st_size file_stat) ?st2 =
      (Inl (IOError EINVAL), ?st2\<lparr>files := (files ?st2)(?data \<mapsto> Data [])\<rparr>)"
    using zero by (simp add: create_blank_def)
  have create: "create_cache_file C W path ?data st =
      (Inl (IOError EINVAL), ?st2\<lparr>files := (files ?st2)(?data \<mapsto> Data [])\<rparr>)"
    using first attr blank by (simp add: create_cache_file_def path create_cache_dir_slash)
  have "Cacher_read C W path sz offset st =
      (Inl (IOError EINVAL), ?st2\<lparr>files := (files ?st2)(?data \<mapsto> Data [])\<rparr>)"
    using cov create by (simp add: Cacher_read_def path get_cache_dir_slash del: One_nat_def)
  then show ?thesis by simp
qed

theorem read_empty_file_fails_witness:
  "fst (Cacher_read a_cacher empty_file_world ''/empty'' 0 0 a_state) = Inl (IOError EINVAL) \<and>
   files (snd (Cacher_read a_cacher empty_file_world ''/empty'' 0 0 a_state))
     ''/cache/empty/cache.data'' = Some (Data [])"
proof -
  let ?W = "empty_file_world"
  have h1: "\<not> path_exists a_state (path_join (path_join (cachedir a_cacher) ''empty'') ''cache.data'')"
    by code_simp
  have h2: "load_cached_blocks a_state
      (path_join (path_join (cachedir a_cacher) ''empty'') ''cache.data.range'') = Inr []"
    by code_simp
  have h3: "fst (Cacher_getattr a_cacher ?W ''/empty'' a_state) = Inr empty_stat"
    by code_simp
  have h3': "Cacher_getattr a_cacher ?W ''/empty'' a_state =
      (Inr empty_stat, snd (Cacher_getattr a_cacher ?W ''/empty'' a_state))"
    using h3 by (simp add: prod_eq_iff)
  have h4: "st_size empty_stat = 0" by (simp add: empty_stat_def)
  have key: "path_join (path_join (cachedir a_cacher) ''empty'') ''cache.data'' = ''/cache/empty/cache.data''"
    by code_simp
  show ?thesis
    using read_empty_file_fails [OF refl h1 h2 h3' h4, of 0 0] unfolding key .
qed

section \<open>Claim C5: a gap whose fetch fails\<close>

text \<open>
  Claim C5. Suppose a \<open>read\<close> has got as far as fetching the gap \<open>gap\<close>: the coverage
  record was loaded, the data file exists and was opened, and the gaps \<open>before\<close> it were
  fetched and written, leaving the state \<open>st2\<close>. If the underlying read for \<open>gap\<close> raises
  \<open>e\<close>, then \<open>read\<close> raises \<open>e\<close>, and the cache is left as it was in \<open>st2\<close>, before the
  gap was attempted: the same files with the same content, the same directories; only
  the call is recorded. The coverage record is the one from before the \<open>read\<close>.
\<close>

theorem failed_gap_fetch:
  assumes path: "path = CHR ''/'' # rest"
    and cov: "load_cached_blocks st (path_join (path_join (cachedir C) rest) ''cache.data.range'')
                = Inr cached_blocks"
    and gaps: "get_uncovered_portions cached_blocks (Range offset (offset + sz))
                = before @ gap # after"
    and created: "create_cache_file C W path
                    (path_join (path_join (cachedir C) rest) ''cache.data'') st = (Inr (), st1)"
    and opened: "open_existing st1 (path_join (path_join (cachedir C) rest) ''cache.data'') = Inr f"
    and fetched: "fetch_blocks C W path (path_join (path_join (cachedir C) rest) ''cache.data'')
                    before cached_blocks st1 = (Inr cb2, st2)"
    and fails: "UnderlyingFs_read (underlying_fs C) (tree_now W st2) path
                  (range_size gap) (start gap) = Inl e"
  shows "Cacher_read C W path sz offset st =
           (Inl e, record_call (Uread path (range_size gap) (start gap)) st2) \<and>
         files (record_call (Uread path (range_size gap) (start gap)) st2) = files st2 \<and>
         dirs (record_call (Uread path (range_size gap) (start gap)) st2) = dirs st2 \<and>
         files (record_call (Uread path (range_size gap) (start gap)) st2)
             (path_join (path_join (cachedir C) rest) ''cache.data.range'')
           = files st (path_join (path_join (cachedir C) rest) ''cache.data.range'')"
proof -
  let ?dir = "path_join (cachedir C) rest"
  let ?data = "path_join ?dir ''cache.data''"
  let ?range = "path_join ?dir ''cache.data.range''"
  let ?st3 = "record_call (Uread path (range_size gap) (start gap)) st2"
  have loop: "fetch_blocks C W path ?data (before @ gap # after) cached_blocks st1 = (Inl e, ?st3)"
    using fetched fails by (simp add: fetch_blocks_append Let_def)
  have dump: "fetch_and_dump C W path ?data ?range (before @ gap # after) cached_blocks st1
      = (Inl e, ?st3)"
    using opened loop by (simp add: fetch_and_dump_def)
  have run: "Cacher_read C W path sz offset st = (Inl e, ?st3)"
    using cov gaps created dump
    by (simp add: Cacher_read_def path get_cache_dir_slash del: One_nat_def)
  have ne1: "?range \<noteq> ?data" by (simp add: path_join_eq_iff)
  have ne2: "?range \<noteq> path_join ?dir ''cache.stat''" by (simp add: path_join_eq_iff)
  have "files st2 ?range = files st1 ?range"
    using fetch_blocks_effect [OF fetched] ne1 by simp
  moreover have "files st1 ?range = files st ?range"
    using create_cache_file_effect(3) [OF created [unfolded path]] ne1 ne2 by simp
  ultimately show ?thesis using run by (simp add: state_simps)
qed

theorem failed_gap_fetch_witness:
  "fst (Cacher_read a_cacher vanish_world ''/a.txt'' 10 0 a_state1) = Inl (IOError ENOENT) \<and>
   files a_state1 ''/cache/a.txt/cache.data.range'' = Some (PickledRanges [Range 2 5]) \<and>
   files (snd (Cacher_read a_cacher vanish_world ''/a.txt'' 10 0 a_state1))
     ''/cache/a.txt/cache.data.range'' = Some (PickledRanges [Range 2 5])"
proof -
  let ?data = "path_join (path_join (cachedir a_cacher) ''a.txt'') ''cache.data''"
  let ?range = "path_join (path_join (cachedir a_cacher) ''a.txt'') ''cache.data.range''"
  let ?st2 = "snd (fetch_blocks a_cacher vanish_world ''/a.txt'' ?data [Range 0 2] [Range 2 5] a_state1)"
  have key: "?range = ''/cache/a.txt/cache.data.range''" by code_simp
  have h1: "load_cached_blocks a_state1 ?range = Inr [Range 2 5]" by code_simp
  have h2: "get_uncovered_portions [Range 2 5] (Range 0 (0 + 10)) = [Range 0 2] @ Range 5 10 # []"
    by code_simp
  have pe: "path_exists a_state1 ?data" by code_simp
  have h3: "create_cache_file a_cacher vanish_world ''/a.txt'' ?data a_state1 = (Inr (), a_state1)"
    using pe by (simp add: create_cache_file_def)
  have h4: "open_existing a_state1 ?data
      = Inr (Data (replicate 2 (CHR 0x00) @ ''234'' @ replicate 5 (CHR 0x00)))"
    by code_simp
  have "fst (fetch_blocks a_cacher vanish_world ''/a.txt'' ?data [Range 0 2] [Range 2 5] a_state1)
      = Inr [Range 0 5]"
    by code_simp
  then have h5: "fetch_blocks a_cacher vanish_world ''/a.txt'' ?data [Range 0 2] [Range 2 5] a_state1
      = (Inr [Range 0 5], ?st2)"
    by (simp add: prod_eq_iff)
  have h6: "UnderlyingFs_read (underlying_fs a_cacher) (tree_now vanish_world ?st2) ''/a.txt''
      (range_size (Range 5 10)) (start (Range 5 10)) = Inl (IOError ENOENT)"
    by code_simp
  have before: "files a_state1 ''/cache/a.txt/cache.data.range'' = Some (PickledRanges [Range 2 5])"
    by code_simp
  let ?st3 = "record_call (Uread ''/a.txt'' (range_size (Range 5 10)) (start (Range 5 10))) ?st2"
  note t = failed_gap_fetch [OF refl h1 h2 h3 h4 h5 h6]
  have run: "Cacher_read a_cacher vanish_world ''/a.txt'' 10 0 a_state1 = (Inl (IOError ENOENT), ?st3)"
    using t by (rule conjunct1)
  have same: "files ?st3 ?range = files a_state1 ?range"
    using t by blast
  have r1: "fst (Cacher_read a_cacher vanish_world ''/a.txt'' 10 0 a_state1) = Inl (IOError ENOENT)"
    by (simp only: run fst_conv)
  have same': "files ?st3 ''/cache/a.txt/cache.data.range''
      = files a_state1 ''/cache/a.txt/cache.data.range''"
    using same unfolding key .
  have r2: "files (snd (Cacher_read a_cacher vanish_world ''/a.txt'' 10 0 a_state1))
      ''/cache/a.txt/cache.data.range'' = Some (PickledRanges [Range 2 5])"
    by (simp only: run snd_conv same' before)
  show ?thesis using r1 r2 before by blast
qed

section \<open>Claim C1: what was read is read again from the cache\<close>



section \<open>Claim C6: listings and attributes are cached once and for all\<close>

text \<open>
  Claim C6. Once \<open>readdir\<close> of a path has returned a listing, \<open>readdir\<close> of that path
  returns the same listing after any sequence of requests to the cacher, and leaves the
  state as it is: it records no call to the underlying file system, whatever the target
  directory holds by then (\<open>W'\<close> and \<open>W''\<close> are arbitrary). With the empty sequence of
  requests, this is \<open>readdir\<close> called twice. The same holds for \<open>getattr\<close> and the
  attributes it has returned.
\<close>

theorem cached_once_served_forever:
  "(Cacher_readdir C W path offset st = (Inr names, st1) \<longrightarrow>
      Cacher_readdir C W' path offset' (serve_all C W'' reqs st1)
        = (Inr names, serve_all C W'' reqs st1) \<and>
      calls (snd (Cacher_readdir C W' path offset' (serve_all C W'' reqs st1)))
        = calls (serve_all C W'' reqs st1)) \<and>
   (Cacher_getattr C W path st = (Inr s, st2) \<longrightarrow>
      Cacher_getattr C W' path (serve_all C W'' reqs st2)
        = (Inr s, serve_all C W'' reqs st2) \<and>
      calls (snd (Cacher_getattr C W' path (serve_all C W'' reqs st2)))
        = calls (serve_all C W'' reqs st2))"
proof -
  have listing: "Cacher_readdir C W' path offset' (serve_all C W'' reqs st1)
      = (Inr names, serve_all C W'' reqs st1)"
    if run: "Cacher_readdir C W path offset st = (Inr names, st1)"
  proof -
    from Cacher_readdir_stored [OF run] obtain rest where path: "path = CHR ''/'' # rest"
      and rec: "files st1 (path_join (path_join (cachedir C) rest) ''cache.list'')
                  = Some (PickledList names)"
      by blast
    have "files (serve_all C W'' reqs st1) (path_join (path_join (cachedir C) rest) ''cache.list'')
        = Some (PickledList names)"
      using rec by (intro serve_all_keeps_records) simp_all
    then show ?thesis unfolding path by (rule Cacher_readdir_from_cache)
  qed
  have attributes: "Cacher_getattr C W' path (serve_all C W'' reqs st2)
      = (Inr s, serve_all C W'' reqs st2)"
    if run: "Cacher_getattr C W path st = (Inr s, st2)"
  proof -
    from Cacher_getattr_stored [OF run] obtain rest where path: "path = CHR ''/'' # rest"
      and rec: "files st2 (path_join (path_join (cachedir C) rest) ''cache.stat'')
                  = Some (PickledStat s)"
      by blast
    have "files (serve_all C W'' reqs st2) (path_join (path_join (cachedir C) rest) ''cache.stat'')
        = Some (PickledStat s)"
      using rec by (intro serve_all_keeps_records) simp_all
    then show ?thesis unfolding path by (rule Cacher_getattr_from_cache)
  qed
  show ?thesis using listing attributes by simp
qed

theorem cached_once_served_forever_witness:
  "Cacher_readdir a_cacher dir_world ''/dir'' 0 a_state
     = (Inr [''.'', ''..'', ''x'', ''y''], dir_state1) \<and>
   UnderlyingFs_readdir (underlying_fs a_cacher) (changed_world 1) ''/dir'' 0
     = Inr [''.'', ''..'', ''z''] \<and>
   Cacher_readdir a_cacher changed_world ''/dir'' 0
       (serve_all a_cacher changed_world [Getattr ''/dir'', Readdir ''/'' 0, Read ''/dir'' 1 0] dir_state1)
     = (Inr [''.'', ''..'', ''x'', ''y''],
        serve_all a_cacher changed_world [Getattr ''/dir'', Readdir ''/'' 0, Read ''/dir'' 1 0] dir_state1) \<and>
   Cacher_getattr a_cacher dir_world ''/dir'' a_state = (Inr dir_stat, dir_state2) \<and>
   Cacher_getattr a_cacher changed_world ''/dir''
       (serve_all a_cacher changed_world [Readdir ''/dir'' 0, Read ''/dir'' 1 0] dir_state2)
     = (Inr dir_stat,
        serve_all a_cacher changed_world [Readdir ''/dir'' 0, Read ''/dir'' 1 0] dir_state2)"
proof -
  have "fst (Cacher_readdir a_cacher dir_world ''/dir'' 0 a_state) = Inr [''.'', ''..'', ''x'', ''y'']"
    by code_simp
  then have h1: "Cacher_readdir a_cacher dir_world ''/dir'' 0 a_state
      = (Inr [''.'', ''..'', ''x'', ''y''], dir_state1)"
    by (simp add: dir_state1_def prod_eq_iff)
  have "fst (Cacher_getattr a_cacher dir_world ''/dir'' a_state) = Inr dir_stat"
    by code_simp
  then have h2: "Cacher_getattr a_cacher dir_world ''/dir'' a_state = (Inr dir_stat, dir_state2)"
    by (simp add: dir_state2_def prod_eq_iff)
  have changed: "UnderlyingFs_readdir (underlying_fs a_cacher) (changed_world 1) ''/dir'' 0
      = Inr [''.'', ''..'', ''z'']"
    by code_simp
  note t1 = cached_once_served_forever [where C = a_cacher and W = dir_world
      and path = "''/dir''" and offset = 0 and st = a_state
      and names = "[''.'', ''..'', ''x'', ''y'']" and ?st1.0 = dir_state1
      and W' = changed_world and offset' = 0 and W'' = changed_world
      and reqs = "[Getattr ''/dir'', Readdir ''/'' 0, Read ''/dir'' 1 0]"]
  note t2 = cached_once_served_forever [where C = a_cacher and W = dir_world
      and path = "''/dir''" and st = a_state and s = dir_stat and ?st2.0 = dir_state2
      and W' = changed_world and W'' = changed_world
      and reqs = "[Readdir ''/dir'' 0, Read ''/dir'' 1 0]"]
  from t1 h1 have r1: "Cacher_readdir a_cacher changed_world ''/dir'' 0
       (serve_all a_cacher changed_world [Getattr ''/dir'', Readdir ''/'' 0, Read ''/dir'' 1 0] dir_state1)
     = (Inr [''.'', ''..'', ''x'', ''y''],
        serve_all a_cacher changed_world [Getattr ''/dir'', Readdir ''/'' 0, Read ''/dir'' 1 0] dir_state1)"
    by blast
  from t2 h2 have r2: "Cacher_getattr a_cacher changed_world ''/dir''
       (serve_all a_cacher changed_world [Readdir ''/dir'' 0, Read ''/dir'' 1 0] dir_state2)
     = (Inr dir_stat,
        serve_all a_cacher changed_world [Readdir ''/dir'' 0, Read ''/dir'' 1 0] dir_state2)"
    by blast
  show ?thesis using h1 changed r1 h2 r2 by blast
qed

end
